theory Spec2Isabelle
  imports Main "HOL-Library.Extended_Nat" "HOL-Library.Multiset"
begin

section \<open>Nodes (node.py)\<close>

text \<open>
  A Python \<open>Node\<close> is a heap object; two nodes are equal only if they are the same object
  (the class defines \<open>__lt__\<close> but neither \<open>__eq__\<close> nor \<open>__hash__\<close>).  A node is therefore
  named by a reference of type \<open>'r\<close>, and the objects live in a store that maps each
  reference to the current field values.  \<open>distance\<close> is \<open>float('inf')\<close> or a Python int,
  modelled by \<open>enat\<close> (\<open>\<infinity> + 1 = \<infinity>\<close>, as for the float).  The fields \<open>x\<close>, \<open>y\<close> and
  \<open>width\<close> only feed \<open>draw\<close> and are left out together with \<open>draw\<close>.
\<close>

datatype NodeState = EMPTY | START | END | BARRIER | VISITED | PATH

datatype py_error = IndexError | AttributeError | ZeroDivisionError

record 'r Node =
  row :: int
  col :: int
  total_rows :: int
  state :: NodeState
  distance :: enat
  previous :: "'r option"
  neighbors :: "'r list"

type_synonym 'r store = "'r \<Rightarrow> 'r Node"

definition Node_init :: "int \<Rightarrow> int \<Rightarrow> int \<Rightarrow> int \<Rightarrow> 'r Node" where
  "Node_init r c w tr =
     \<lparr>row = r, col = c, total_rows = tr, state = EMPTY, distance = \<infinity>,
      previous = None, neighbors = []\<rparr>"

definition get_pos :: "'r Node \<Rightarrow> int \<times> int" where
  "get_pos n = (row n, col n)"


definition is_start :: "'r Node \<Rightarrow> bool" where
  "is_start n = (state n = START)"

definition is_end :: "'r Node \<Rightarrow> bool" where
  "is_end n = (state n = END)"

definition is_barrier :: "'r Node \<Rightarrow> bool" where
  "is_barrier n = (state n = BARRIER)"

definition is_visited :: "'r Node \<Rightarrow> bool" where
  "is_visited n = (state n = VISITED)"

definition is_path :: "'r Node \<Rightarrow> bool" where
  "is_path n = (state n = PATH)"

definition set_state :: "'r store \<Rightarrow> 'r \<Rightarrow> NodeState \<Rightarrow> 'r store" where
  "set_state s n st = s(n := (s n)\<lparr>state := st\<rparr>)"

definition reset :: "'r store \<Rightarrow> 'r \<Rightarrow> 'r store" where
  "reset s n = s(n := (s n)\<lparr>state := EMPTY, distance := \<infinity>, previous := None\<rparr>)"

definition reset_algorithm_data :: "'r store \<Rightarrow> 'r \<Rightarrow> 'r store" where
  "reset_algorithm_data s n =
     (let s1 = (if state (s n) \<in> {VISITED, PATH} then s(n := (s n)\<lparr>state := EMPTY\<rparr>) else s);
          s2 = s1(n := (s1 n)\<lparr>distance := \<infinity>\<rparr>)
      in s2(n := (s2 n)\<lparr>previous := None\<rparr>))"

definition lt_node :: "'r store \<Rightarrow> 'r \<Rightarrow> 'r \<Rightarrow> bool" where
  "lt_node s a b = (distance (s a) < distance (s b))"

text \<open>
  \<open>update_neighbors\<close> reads \<open>grid[new_row][new_col]\<close>; an index beyond a list raises
  \<open>IndexError\<close> (the bounds test against \<open>total_rows\<close> keeps both indices non-negative).
\<close>

definition directions :: "(int \<times> int) list" where
  "directions = [(-1, 0), (1, 0), (0, -1), (0, 1)]"

definition update_neighbors_dir ::
    "'r list list \<Rightarrow> 'r \<Rightarrow> int \<times> int \<Rightarrow> py_error + 'r store \<Rightarrow> py_error + 'r store" where
  "update_neighbors_dir g n d acc =
     (case acc of
        Inl err \<Rightarrow> Inl err
      | Inr s \<Rightarrow>
          (let new_row = row (s n) + fst d; new_col = col (s n) + snd d in
           if 0 \<le> new_row \<and> new_row < total_rows (s n) \<and>
              0 \<le> new_col \<and> new_col < total_rows (s n)
           then
             if nat new_row < length g \<and> nat new_col < length (g ! nat new_row)
             then
               (let neighbor = g ! nat new_row ! nat new_col in
                if \<not> is_barrier (s neighbor)
                then Inr (s(n := (s n)\<lparr>neighbors := neighbors (s n) @ [neighbor]\<rparr>))
                else Inr s)
             else Inl IndexError
           else Inr s))"

definition update_neighbors :: "'r store \<Rightarrow> 'r list list \<Rightarrow> 'r \<Rightarrow> py_error + 'r store" where
  "update_neighbors s g n =
     fold (update_neighbors_dir g n) directions (Inr (s(n := (s n)\<lparr>neighbors := []\<rparr>)))"

section \<open>The grid (grid.py)\<close>

text \<open>
  A grid allocates one node per cell and never replaces it, so the cell \<open>(i, j)\<close> serves
  as the reference of the node created for it.  The fields \<open>start_node\<close> and \<open>end_node\<close>
  of the class carry the prefix \<open>grid_\<close> here, the engine having fields of the same names.
  \<open>width // rows\<close> raises \<open>ZeroDivisionError\<close> for \<open>rows = 0\<close>; integer division
  rounds down in Python as \<open>div\<close> does on \<open>int\<close>.  The drawing methods are left out.
\<close>

type_synonym cell = "int \<times> int"

record Grid =
  rows :: int
  width :: int
  gap :: int
  grid :: "cell list list"
  grid_start_node :: "cell option"
  grid_end_node :: "cell option"



definition get_clicked_pos :: "Grid \<Rightarrow> int \<times> int \<Rightarrow> py_error + (int \<times> int)" where
  "get_clicked_pos g pos =
     (let (y, x) = pos in
      if gap g = 0 then Inl ZeroDivisionError else Inr (y div gap g, x div gap g))"






definition get_all_nodes :: "Grid \<Rightarrow> cell list" where
  "get_all_nodes g = concat (grid g)"


definition Grid_reset_algorithm_data :: "Grid \<Rightarrow> cell store \<Rightarrow> cell store" where
  "Grid_reset_algorithm_data g s =
     fold (\<lambda>r s'. fold (\<lambda>node s''. reset_algorithm_data s'' node) r s') (grid g) s"

definition Grid_update_neighbors :: "Grid \<Rightarrow> cell store \<Rightarrow> py_error + cell store" where
  "Grid_update_neighbors g s =
     fold (\<lambda>r acc. fold (\<lambda>node acc'.
                           case acc' of
                             Inl err \<Rightarrow> Inl err
                           | Inr s' \<Rightarrow> update_neighbors s' (grid g) node) r acc)
          (grid g) (Inr s)"


section \<open>The binary heap of the standard library\<close>

text \<open>
  \<open>dijkstra.py\<close> keeps its frontier in a Python list managed by \<open>heapq.heappush\<close> and
  \<open>heapq.heappop\<close>.  The entries are tuples \<open>(distance, node)\<close>.  Tuples compare
  lexicographically: the first components by value, and for equal first components the
  nodes, which are equal only when identical and otherwise compare by \<open>Node.__lt__\<close>,
  that is by the distances the nodes hold at the time of the comparison.  The functions
  below follow \<open>heappush\<close>, \<open>heappop\<close>, \<open>_siftdown\<close> and \<open>_siftup\<close> of CPython's
  \<open>heapq\<close>, loop for loop.
\<close>

type_synonym 'r entry = "enat \<times> 'r"

definition entry_lt :: "'r store \<Rightarrow> 'r entry \<Rightarrow> 'r entry \<Rightarrow> bool" where
  "entry_lt s a b =
     (if fst a \<noteq> fst b then fst a < fst b
      else if snd a \<noteq> snd b then lt_node s (snd a) (snd b)
      else False)"

function siftdown_loop ::
    "'r store \<Rightarrow> 'r entry list \<Rightarrow> nat \<Rightarrow> nat \<Rightarrow> 'r entry \<Rightarrow> 'r entry list" where
  "siftdown_loop s heap startpos pos newitem =
     (if pos > startpos then
        (let parentpos = (pos - 1) div 2;
             parent = heap ! parentpos in
         if entry_lt s newitem parent
         then siftdown_loop s (heap[pos := parent]) startpos parentpos newitem
         else heap[pos := newitem])
      else heap[pos := newitem])"
  by pat_completeness auto
termination
  by (relation "measure (\<lambda>(s, heap, startpos, pos, newitem). pos)") auto

declare siftdown_loop.simps [simp del]

definition siftdown :: "'r store \<Rightarrow> 'r entry list \<Rightarrow> nat \<Rightarrow> nat \<Rightarrow> 'r entry list" where
  "siftdown s heap startpos pos = siftdown_loop s heap startpos pos (heap ! pos)"

function siftup_loop ::
    "'r store \<Rightarrow> 'r entry list \<Rightarrow> nat \<Rightarrow> nat \<Rightarrow> 'r entry list \<times> nat" where
  "siftup_loop s heap endpos pos =
     (let childpos = 2 * pos + 1 in
      if childpos < endpos then
        (let rightpos = childpos + 1;
             childpos' = (if rightpos < endpos \<and>
                             \<not> entry_lt s (heap ! childpos) (heap ! rightpos)
                          then rightpos else childpos)
         in siftup_loop s (heap[pos := heap ! childpos']) endpos childpos')
      else (heap, pos))"
  by pat_completeness auto
termination
  by (relation "measure (\<lambda>(s, heap, endpos, pos). endpos - pos)") (auto simp: Let_def)

declare siftup_loop.simps [simp del]

definition siftup :: "'r store \<Rightarrow> 'r entry list \<Rightarrow> nat \<Rightarrow> 'r entry list" where
  "siftup s heap pos =
     (let endpos = length heap;
          startpos = pos;
          newitem = heap ! pos;
          (heap', pos') = siftup_loop s heap endpos pos
      in siftdown s (heap'[pos' := newitem]) startpos pos')"

definition heappush :: "'r store \<Rightarrow> 'r entry list \<Rightarrow> 'r entry \<Rightarrow> 'r entry list" where
  "heappush s heap item = (let heap' = heap @ [item] in siftdown s heap' 0 (length heap' - 1))"

definition heappop :: "'r store \<Rightarrow> 'r entry list \<Rightarrow> py_error + ('r entry \<times> 'r entry list)" where
  "heappop s heap =
     (if heap = [] then Inl IndexError
      else
        (let lastelt = last heap; heap' = butlast heap in
         if heap' \<noteq> [] then
           (let returnitem = heap' ! 0 in Inr (returnitem, siftup s (heap'[0 := lastelt]) 0))
         else Inr (lastelt, heap')))"

section \<open>The stepped engine (dijkstra.py)\<close>

record 'r DijkstraAlgorithm =
  start_node :: "'r option"
  end_node :: "'r option"
  visited_count :: int
  path_length :: int
  is_running :: bool
  is_complete :: bool
  path_found :: bool
  priority_queue :: "'r entry list"
  visited_nodes :: "'r set"

text \<open>
  The constructor has no check of its own.  With \<open>start_node = None\<close> the assignment
  \<open>self.start_node.distance = 0\<close> raises \<open>AttributeError\<close> before any node is written.
\<close>

definition DijkstraAlgorithm_init ::
    "'r option \<Rightarrow> 'r option \<Rightarrow> 'r store \<Rightarrow> py_error + ('r DijkstraAlgorithm \<times> 'r store)" where
  "DijkstraAlgorithm_init start end s =
     (case start of
        None \<Rightarrow> Inl AttributeError
      | Some st \<Rightarrow>
          Inr (\<lparr>start_node = start, end_node = end, visited_count = 0, path_length = 0,
                is_running = False, is_complete = False, path_found = False,
                priority_queue = [(0, st)], visited_nodes = {}\<rparr>,
               s(st := (s st)\<lparr>distance := 0\<rparr>)))"

text \<open>
  The \<open>while current is not None\<close> loop of \<open>_reconstruct_path\<close> follows \<open>previous\<close>
  links and has no bound: on a cyclic chain it does not return, which is the value \<open>None\<close>.
\<close>

partial_function (option) walk_previous ::
    "'r store \<Rightarrow> 'r option \<Rightarrow> 'r list \<Rightarrow> 'r list option" where
  "walk_previous s current path_nodes =
     (case current of
        None \<Rightarrow> Some path_nodes
      | Some c \<Rightarrow> walk_previous s (previous (s c)) (path_nodes @ [c]))"

definition interior :: "'a list \<Rightarrow> 'a list" where
  "interior xs = butlast (tl xs)"

definition reconstruct_path ::
    "'r DijkstraAlgorithm \<Rightarrow> 'r store \<Rightarrow> ('r DijkstraAlgorithm \<times> 'r store) option" where
  "reconstruct_path e s =
     (if \<not> path_found e then Some (e, s)
      else
        (case walk_previous s (end_node e) [] of
           None \<Rightarrow> None
         | Some path_nodes \<Rightarrow>
             Some (e\<lparr>path_length := int (length path_nodes) - 1\<rparr>,
                   fold (\<lambda>node s'. set_state s' node PATH) (interior path_nodes) s)))"

definition relax ::
    "'r DijkstraAlgorithm \<Rightarrow> 'r \<Rightarrow> 'r \<Rightarrow> 'r entry list \<times> 'r store \<Rightarrow> 'r entry list \<times> 'r store" where
  "relax e current_node neighbor qs =
     (let (q, s) = qs in
      if neighbor \<in> visited_nodes e then (q, s)
      else
        (let new_distance = distance (s current_node) + 1 in
         if new_distance < distance (s neighbor) then
           (let s' = s(neighbor := (s neighbor)\<lparr>distance := new_distance\<rparr>);
                s'' = s'(neighbor := (s' neighbor)\<lparr>previous := Some current_node\<rparr>)
            in (heappush s'' q (new_distance, neighbor), s''))
         else (q, s)))"

type_synonym 'r step_result =
  "py_error + ((bool \<times> 'r option) \<times> 'r DijkstraAlgorithm \<times> 'r store)"

definition step :: "'r DijkstraAlgorithm \<Rightarrow> 'r store \<Rightarrow> 'r step_result option" where
  "step e s =
     (if priority_queue e = [] \<or> is_complete e then
        Some (Inr ((False, None), e\<lparr>is_complete := True, is_running := False\<rparr>, s))
      else
        (case heappop s (priority_queue e) of
           Inl err \<Rightarrow> Some (Inl err)
         | Inr ((current_distance, current_node), q) \<Rightarrow>
             (let e1 = e\<lparr>priority_queue := q\<rparr> in
              if current_distance > distance (s current_node) then Some (Inr ((True, None), e1, s))
              else if current_node \<in> visited_nodes e1 then Some (Inr ((True, None), e1, s))
              else
                (let e2 = e1\<lparr>visited_nodes := insert current_node (visited_nodes e1),
                              visited_count := visited_count e1 + 1\<rparr>;
                     s2 = (if \<not> is_start (s current_node) \<and> \<not> is_end (s current_node)
                           then set_state s current_node VISITED else s)
                 in
                 if Some current_node = end_node e2 then
                   (case reconstruct_path
                           (e2\<lparr>path_found := True, is_complete := True, is_running := False\<rparr>) s2 of
                      None \<Rightarrow> None
                    | Some (e3, s3) \<Rightarrow> Some (Inr ((False, Some current_node), e3, s3)))
                 else
                   (let (q', s3) = fold (relax e2 current_node) (neighbors (s2 current_node)) (q, s2)
                    in Some (Inr ((True, Some current_node), e2\<lparr>priority_queue := q'\<rparr>, s3)))))))"

text \<open>
  \<open>run_complete\<close> without a \<open>draw_callback\<close> (the default).  The loop has no step budget,
  so it is a partial function: \<open>None\<close> is a run that does not return.
\<close>

partial_function (option) run_complete_loop ::
    "'r DijkstraAlgorithm \<Rightarrow> 'r store \<Rightarrow> (py_error + 'r DijkstraAlgorithm \<times> 'r store) option" where
  "run_complete_loop e s =
     (if \<not> is_complete e then
        (case step e s of
           None \<Rightarrow> None
         | Some (Inl err) \<Rightarrow> Some (Inl err)
         | Some (Inr ((continue_running, current_node), e', s')) \<Rightarrow>
             if \<not> continue_running then Some (Inr (e', s')) else run_complete_loop e' s')
      else Some (Inr (e, s)))"

definition run_complete ::
    "'r DijkstraAlgorithm \<Rightarrow> 'r store \<Rightarrow> (py_error + bool \<times> 'r DijkstraAlgorithm \<times> 'r store) option" where
  "run_complete e s =
     (case run_complete_loop (e\<lparr>is_running := True\<rparr>) s of
        None \<Rightarrow> None
      | Some (Inl err) \<Rightarrow> Some (Inl err)
      | Some (Inr (e', s')) \<Rightarrow> Some (Inr (path_found e', e', s')))"

record stats =
  stats_visited_count :: int
  stats_path_length :: int
  stats_is_running :: bool
  stats_is_complete :: bool
  stats_path_found :: bool

definition get_stats :: "'r DijkstraAlgorithm \<Rightarrow> stats" where
  "get_stats e =
     \<lparr>stats_visited_count = visited_count e,
      stats_path_length = (if path_found e then path_length e else 0),
      stats_is_running = is_running e,
      stats_is_complete = is_complete e,
      stats_path_found = path_found e\<rparr>"

text \<open>
  The generator \<open>run_dijkstra_step_by_step\<close>, driven until it is exhausted: the result is
  the list of the triples it yields, with the engine and the store it leaves behind.
\<close>

partial_function (option) step_by_step_loop ::
    "'r DijkstraAlgorithm \<Rightarrow> 'r store \<Rightarrow> (bool \<times> 'r option \<times> stats) list \<Rightarrow>
     (py_error + (bool \<times> 'r option \<times> stats) list \<times> 'r DijkstraAlgorithm \<times> 'r store) option" where
  "step_by_step_loop e s yielded =
     (if \<not> is_complete e then
        (case step e s of
           None \<Rightarrow> None
         | Some (Inl err) \<Rightarrow> Some (Inl err)
         | Some (Inr ((continue_running, current_node), e', s')) \<Rightarrow>
             (let yielded' = yielded @ [(continue_running, current_node, get_stats e')] in
              if \<not> continue_running then Some (Inr (yielded', e', s'))
              else step_by_step_loop e' s' yielded'))
      else Some (Inr (yielded, e, s)))"

definition run_dijkstra_step_by_step ::
    "'r option \<Rightarrow> 'r option \<Rightarrow> 'r store \<Rightarrow>
     (py_error + (bool \<times> 'r option \<times> stats) list \<times> 'r DijkstraAlgorithm \<times> 'r store) option" where
  "run_dijkstra_step_by_step start end s =
     (case DijkstraAlgorithm_init start end s of
        Inl err \<Rightarrow> Some (Inl err)
      | Inr (algorithm, s') \<Rightarrow> step_by_step_loop (algorithm\<lparr>is_running := True\<rparr>) s' [])"

definition run_dijkstra_complete ::
    "'r option \<Rightarrow> 'r option \<Rightarrow> 'r store \<Rightarrow> (py_error + (bool \<times> stats) \<times> 'r store) option" where
  "run_dijkstra_complete start end s =
     (case DijkstraAlgorithm_init start end s of
        Inl err \<Rightarrow> Some (Inl err)
      | Inr (algorithm, s') \<Rightarrow>
          (case run_complete algorithm s' of
             None \<Rightarrow> None
           | Some (Inl err) \<Rightarrow> Some (Inl err)
           | Some (Inr (found, algorithm', s'')) \<Rightarrow>
               Some (Inr ((found, get_stats algorithm'), s''))))"

section \<open>Notions used to state the properties\<close>

text \<open>
  \<open>is_chain s cur xs\<close>: \<open>xs\<close> is the list of nodes met when following \<open>previous\<close> links
  from \<open>cur\<close> until a node without predecessor.
\<close>

fun is_chain :: "'r store \<Rightarrow> 'r option \<Rightarrow> 'r list \<Rightarrow> bool" where
  "is_chain s None xs = (xs = [])"
| "is_chain s (Some c) [] = False"
| "is_chain s (Some c) (x # xs) = (x = c \<and> is_chain s (previous (s c)) xs)"

text \<open>The engine after lines 34-35 of \<open>step\<close>, and the store after lines 37-38.\<close>

definition mark_visited ::
    "'r DijkstraAlgorithm \<Rightarrow> 'r entry list \<Rightarrow> 'r \<Rightarrow> 'r DijkstraAlgorithm" where
  "mark_visited e q n =
     e\<lparr>priority_queue := q, visited_nodes := insert n (visited_nodes e),
       visited_count := visited_count e + 1\<rparr>"

definition tag_visited :: "'r store \<Rightarrow> 'r \<Rightarrow> 'r store" where
  "tag_visited s n =
     (if \<not> is_start (s n) \<and> \<not> is_end (s n) then set_state s n VISITED else s)"

text \<open>A driver that calls \<open>step\<close> a given number of times, whatever it returns.\<close>

fun steps ::
    "nat \<Rightarrow> 'r DijkstraAlgorithm \<Rightarrow> 'r store \<Rightarrow> (py_error + 'r DijkstraAlgorithm \<times> 'r store) option" where
  "steps 0 e s = Some (Inr (e, s))"
| "steps (Suc k) e s =
     (case step e s of
        None \<Rightarrow> None
      | Some (Inl err) \<Rightarrow> Some (Inl err)
      | Some (Inr (r, e', s')) \<Rightarrow> steps k e' s')"

text \<open>
  Notions for the heap: the child that \<open>_siftup\<close> moves up from position \<open>pos\<close>, and the
  heap order on the recorded distances (the first components, by which \<open>entry_lt\<close>
  decides whenever they differ).
\<close>

definition smaller_child :: "'r store \<Rightarrow> 'r entry list \<Rightarrow> nat \<Rightarrow> nat \<Rightarrow> nat" where
  "smaller_child s heap endpos pos =
     (if 2 * pos + 1 + 1 < endpos \<and> \<not> entry_lt s (heap ! (2 * pos + 1)) (heap ! (2 * pos + 1 + 1))
      then 2 * pos + 1 + 1 else 2 * pos + 1)"




text \<open>
  What a run maintains on a graph with node set \<open>V\<close>: adjacency lists stay inside \<open>V\<close>,
  the queue and the visited set hold nodes of \<open>V\<close>, \<open>visited_count\<close> counts the visited
  set, and a predecessor link always leads to a visited node of smaller distance.  The
  measure decreases with every call of \<open>step\<close> that asks to be called again.
\<close>

definition run_inv :: "'r set \<Rightarrow> 'r DijkstraAlgorithm \<Rightarrow> 'r store \<Rightarrow> bool" where
  "run_inv V e s =
     (finite V \<and>
      (\<forall>n \<in> V. set (neighbors (s n)) \<subseteq> V) \<and>
      snd ` set (priority_queue e) \<subseteq> V \<and>
      visited_nodes e \<subseteq> V \<and>
      visited_count e = int (card (visited_nodes e)) \<and>
      (\<forall>n \<in> V. \<forall>p. previous (s n) = Some p \<longrightarrow>
         p \<in> visited_nodes e \<and> distance (s p) < distance (s n)))"

definition run_measure ::
    "'r set \<Rightarrow> (('r DijkstraAlgorithm \<times> 'r store) \<times> ('r DijkstraAlgorithm \<times> 'r store)) set" where
  "run_measure V =
     inv_image (less_than <*lex*> less_than)
       (\<lambda>(e, s). (card (V - visited_nodes e), length (priority_queue e)))"


definition adjacent :: "cell \<Rightarrow> cell \<Rightarrow> bool" where
  "adjacent a b = (\<bar>fst a - fst b\<bar> + \<bar>snd a - snd b\<bar> = 1)"






text \<open>
  A driver that calls \<open>step\<close> on one engine until a call returns \<open>False\<close> as its
  first component, as the visualizer does through the generator.
\<close>

partial_function (option) drive_steps ::
    "'r DijkstraAlgorithm \<Rightarrow> 'r store \<Rightarrow> (py_error + 'r DijkstraAlgorithm \<times> 'r store) option" where
  "drive_steps e s =
     (case step e s of
        None \<Rightarrow> None
      | Some (Inl err) \<Rightarrow> Some (Inl err)
      | Some (Inr ((should_continue, touched), e', s')) \<Rightarrow>
          if should_continue then drive_steps e' s' else Some (Inr (e', s')))"

text \<open>A store in which every reference holds a node as the constructor of \<open>Node\<close> leaves it.\<close>

definition blank_store :: "'r store" where
  "blank_store = (\<lambda>_. Node_init 0 0 0 0)"






text \<open>
  A graph ready for a run: finitely many nodes, closed under the adjacency lists, no node
  carrying a predecessor link (as \<open>reset_algorithm_data\<close> leaves them).  \<open>in_run\<close>:
  the engine and the store are what some number of calls of \<open>step\<close> make of an engine
  constructed on such a graph with the given start node (\<open>is_running\<close> set first or not,
  as \<open>run_complete\<close> and the generator do, or left alone).  \<open>start_inv\<close> is what such
  calls maintain about the start node: it keeps distance 0 and no predecessor, and every
  other node that is queued or visited has a predecessor.
\<close>

definition reset_graph :: "'r set \<Rightarrow> 'r store \<Rightarrow> bool" where
  "reset_graph V s =
     (finite V \<and> (\<forall>n \<in> V. set (neighbors (s n)) \<subseteq> V) \<and> (\<forall>n \<in> V. previous (s n) = None))"

definition in_run :: "'r set \<Rightarrow> 'r \<Rightarrow> 'r DijkstraAlgorithm \<Rightarrow> 'r store \<Rightarrow> bool" where
  "in_run V start e s =
     (\<exists>s_init end e0 s0 b k.
        reset_graph V s_init \<and> start \<in> V \<and>
        DijkstraAlgorithm_init (Some start) end s_init = Inr (e0, s0) \<and>
        steps k (e0\<lparr>is_running := b\<rparr>) s0 = Some (Inr (e, s)))"

definition start_inv :: "'r \<Rightarrow> 'r DijkstraAlgorithm \<Rightarrow> 'r store \<Rightarrow> bool" where
  "start_inv st e s =
     (start_node e = Some st \<and> distance (s st) = 0 \<and> previous (s st) = None \<and>
      (\<forall>n \<in> visited_nodes e \<union> snd ` set (priority_queue e).
         n \<noteq> st \<longrightarrow> previous (s n) \<noteq> None))"

text \<open>
  Example data: three nodes in a line, \<open>a - b - c\<close>, with the adjacency lists
  \<open>update_neighbors\<close> would give them and the fields of a node just constructed; an
  engine in the middle of a run from \<open>a\<close>, after \<open>a\<close> was expanded.
\<close>

definition line3 :: "string store" where
  "line3 = blank_store
     (''a'' := (blank_store ''a'')\<lparr>neighbors := [''b'']\<rparr>,
      ''b'' := (blank_store ''b'')\<lparr>col := 1, neighbors := [''a'', ''c'']\<rparr>,
      ''c'' := (blank_store ''c'')\<lparr>col := 2, neighbors := [''b'']\<rparr>)"

definition line3_mid :: "string store" where
  "line3_mid = line3
     (''a'' := (line3 ''a'')\<lparr>distance := 0\<rparr>,
      ''b'' := (line3 ''b'')\<lparr>distance := 1, previous := Some ''a''\<rparr>)"

definition engine_mid :: "string option \<Rightarrow> (enat \<times> string) list \<Rightarrow> string DijkstraAlgorithm" where
  "engine_mid end q =
     \<lparr>start_node = Some ''a'', end_node = end, visited_count = 1, path_length = 0,
      is_running = True, is_complete = False, path_found = False,
      priority_queue = q, visited_nodes = {''a''}\<rparr>"

text \<open>
  Nodes that are used for a second run without \<open>reset_algorithm_data\<close> in between.
  \<open>line3_used\<close> is \<open>line3\<close> as a complete run from \<open>a\<close> to \<open>c\<close> leaves it;
  \<open>engine_second\<close> and \<open>line3_second\<close> are the engine and the store after the first
  step of a second run on it, from \<open>b\<close> to \<open>c\<close>.  \<open>line4\<close> is a line of four nodes,
  \<open>a - b - c - d\<close>, \<open>line4_used\<close> what a complete run from \<open>a\<close> to \<open>d\<close> leaves of
  it, \<open>engine_stale\<close> and \<open>line4_stale\<close> the engine and the store after the first step
  of a second run on it, from \<open>d\<close> to \<open>c\<close>.
\<close>

definition line3_used :: "string store" where
  "line3_used = line3
     (''a'' := (line3 ''a'')\<lparr>state := VISITED, distance := 0\<rparr>,
      ''b'' := (line3 ''b'')\<lparr>state := PATH, distance := 1, previous := Some ''a''\<rparr>,
      ''c'' := (line3 ''c'')\<lparr>state := VISITED, distance := 2, previous := Some ''b''\<rparr>)"

definition line3_second :: "string store" where
  "line3_second = line3_used
     (''b'' := (line3_used ''b'')\<lparr>state := VISITED, distance := 0\<rparr>,
      ''c'' := (line3_used ''c'')\<lparr>distance := 1, previous := Some ''b''\<rparr>)"

definition engine_second :: "string DijkstraAlgorithm" where
  "engine_second =
     \<lparr>start_node = Some ''b'', end_node = Some ''c'', visited_count = 1, path_length = 0,
      is_running = False, is_complete = False, path_found = False,
      priority_queue = [(1, ''c'')], visited_nodes = {''b''}\<rparr>"

definition line4 :: "string store" where
  "line4 = blank_store
     (''a'' := (blank_store ''a'')\<lparr>neighbors := [''b'']\<rparr>,
      ''b'' := (blank_store ''b'')\<lparr>col := 1, neighbors := [''a'', ''c'']\<rparr>,
      ''c'' := (blank_store ''c'')\<lparr>col := 2, neighbors := [''b'', ''d'']\<rparr>,
      ''d'' := (blank_store ''d'')\<lparr>col := 3, neighbors := [''c'']\<rparr>)"

definition line4_used :: "string store" where
  "line4_used = line4
     (''a'' := (line4 ''a'')\<lparr>state := VISITED, distance := 0\<rparr>,
      ''b'' := (line4 ''b'')\<lparr>state := PATH, distance := 1, previous := Some ''a''\<rparr>,
      ''c'' := (line4 ''c'')\<lparr>state := PATH, distance := 2, previous := Some ''b''\<rparr>,
      ''d'' := (line4 ''d'')\<lparr>state := VISITED, distance := 3, previous := Some ''c''\<rparr>)"

definition line4_stale :: "string store" where
  "line4_stale = line4_used
     (''d'' := (line4_used ''d'')\<lparr>distance := 0\<rparr>,
      ''c'' := (line4_used ''c'')\<lparr>distance := 1, previous := Some ''d''\<rparr>)"

definition engine_stale :: "string DijkstraAlgorithm" where
  "engine_stale =
     \<lparr>start_node = Some ''d'', end_node = Some ''c'', visited_count = 1, path_length = 0,
      is_running = False, is_complete = False, path_found = False,
      priority_queue = [(1, ''c'')], visited_nodes = {''d''}\<rparr>"

section \<open>Properties\<close>

subsection \<open>Stores and node operations\<close>

lemma set_state_apply:
  "set_state s n st m = (if m = n then (s n)\<lparr>state := st\<rparr> else s m)"
  by (simp add: set_state_def)

lemma fold_set_state_apply:
  "fold (\<lambda>node s'. set_state s' node st) xs s m =
     (if m \<in> set xs then (s m)\<lparr>state := st\<rparr> else s m)"
  by (induction xs arbitrary: s) (auto simp: set_state_apply)

lemma reset_algorithm_data_apply:
  "reset_algorithm_data s n m =
     (if m = n
      then (s n)\<lparr>state := (if state (s n) \<in> {VISITED, PATH} then EMPTY else state (s n)),
                  distance := \<infinity>, previous := None\<rparr>
      else s m)"
  by (simp add: reset_algorithm_data_def Let_def)

lemma fold_reset_algorithm_data_apply:
  "fold (\<lambda>node s'. reset_algorithm_data s' node) xs s m =
     (if m \<in> set xs
      then (s m)\<lparr>state := (if state (s m) \<in> {VISITED, PATH} then EMPTY else state (s m)),
                  distance := \<infinity>, previous := None\<rparr>
      else s m)"
  by (induction xs arbitrary: s) (auto simp: reset_algorithm_data_apply)

lemma fold_fold_concat:
  "fold (\<lambda>r s'. fold f r s') xss s = fold f (concat xss) s"
  by (induction xss arbitrary: s) simp_all

lemma Grid_reset_algorithm_data_apply:
  "Grid_reset_algorithm_data g s m =
     (if m \<in> set (get_all_nodes g)
      then (s m)\<lparr>state := (if state (s m) \<in> {VISITED, PATH} then EMPTY else state (s m)),
                  distance := \<infinity>, previous := None\<rparr>
      else s m)"
proof -
  have "Grid_reset_algorithm_data g s =
          fold (\<lambda>node s'. reset_algorithm_data s' node) (concat (grid g)) s"
    by (simp add: Grid_reset_algorithm_data_def fold_fold_concat)
  then show ?thesis
    by (simp only: fold_reset_algorithm_data_apply get_all_nodes_def)
qed

text \<open>
  Claim C10.  \<open>reset_algorithm_data\<close> sets the distance of its node to infinity and its
  predecessor to absent, turns the state \<open>VISITED\<close> or \<open>PATH\<close> into \<open>EMPTY\<close>, keeps
  every other state and the coordinates, and touches no other node; the reset of a whole
  grid therefore keeps which cells are start, end and barrier, and resets distance and
  predecessor of every node of the grid.
\<close>

theorem reset_algorithm_data_frame:
  "distance (reset_algorithm_data s n n) = \<infinity> \<and>
   previous (reset_algorithm_data s n n) = None \<and>
   state (reset_algorithm_data s n n) =
     (if state (s n) = VISITED \<or> state (s n) = PATH then EMPTY else state (s n)) \<and>
   row (reset_algorithm_data s n n) = row (s n) \<and>
   col (reset_algorithm_data s n n) = col (s n) \<and>
   (\<forall>m. m \<noteq> n \<longrightarrow> reset_algorithm_data s n m = s m) \<and>
   (\<forall>p. is_start (Grid_reset_algorithm_data g gs p) = is_start (gs p) \<and>
        is_end (Grid_reset_algorithm_data g gs p) = is_end (gs p) \<and>
        is_barrier (Grid_reset_algorithm_data g gs p) = is_barrier (gs p) \<and>
        row (Grid_reset_algorithm_data g gs p) = row (gs p) \<and>
        col (Grid_reset_algorithm_data g gs p) = col (gs p) \<and>
        (p \<in> set (get_all_nodes g) \<longrightarrow>
           distance (Grid_reset_algorithm_data g gs p) = \<infinity> \<and>
           previous (Grid_reset_algorithm_data g gs p) = None \<and>
           \<not> is_visited (Grid_reset_algorithm_data g gs p) \<and>
           \<not> is_path (Grid_reset_algorithm_data g gs p)))"
  by (simp add: reset_algorithm_data_apply Grid_reset_algorithm_data_apply
        is_start_def is_end_def is_barrier_def is_visited_def is_path_def)

theorem reset_algorithm_data_frame_witness:
  "(1::nat) \<noteq> 0 \<and>
   reset_algorithm_data (blank_store(0 := (blank_store 0)\<lparr>state := VISITED, distance := 3\<rparr>,
                                     1 := (blank_store 1)\<lparr>state := START, distance := 0\<rparr>)) (0::nat) 1
     = (blank_store 1)\<lparr>state := START, distance := 0\<rparr> \<and>
   (0, 1) \<in> set (get_all_nodes \<lparr>rows = 2, width = 10, gap = 5, grid = [[(0, 0), (0, 1)], [(1, 0), (1, 1)]],
                                 grid_start_node = Some (0, 0), grid_end_node = None\<rparr>) \<and>
   distance (Grid_reset_algorithm_data
               \<lparr>rows = 2, width = 10, gap = 5, grid = [[(0, 0), (0, 1)], [(1, 0), (1, 1)]],
                grid_start_node = Some (0, 0), grid_end_node = None\<rparr>
               (blank_store((0, 1) := (blank_store (0, 1))\<lparr>state := PATH, distance := 1\<rparr>)) (0, 1)) = \<infinity> \<and>
   \<not> is_path (Grid_reset_algorithm_data
               \<lparr>rows = 2, width = 10, gap = 5, grid = [[(0, 0), (0, 1)], [(1, 0), (1, 1)]],
                grid_start_node = Some (0, 0), grid_end_node = None\<rparr>
               (blank_store((0, 1) := (blank_store (0, 1))\<lparr>state := PATH, distance := 1\<rparr>)) (0, 1))"
proof -
  let ?s = "blank_store(0 := (blank_store 0)\<lparr>state := VISITED, distance := 3\<rparr>,
                        1 := (blank_store 1)\<lparr>state := START, distance := 0\<rparr>) :: nat store"
  let ?g = "\<lparr>rows = 2, width = 10, gap = 5, grid = [[(0, 0), (0, 1)], [(1, 0), (1, 1)]],
             grid_start_node = Some (0, 0), grid_end_node = None\<rparr>"
  let ?gs = "blank_store((0, 1) := (blank_store (0, 1))\<lparr>state := PATH, distance := 1\<rparr>) :: cell store"
  note t = reset_algorithm_data_frame[of ?s 0 ?g ?gs]
  have ne: "(1::nat) \<noteq> 0" by simp
  have mem: "(0, 1) \<in> set (get_all_nodes ?g)" by (simp add: get_all_nodes_def)
  from t ne have "reset_algorithm_data ?s 0 1 = ?s 1" by blast
  also have "?s 1 = (blank_store 1)\<lparr>state := START, distance := 0\<rparr>" by simp
  finally have a: "reset_algorithm_data ?s 0 1 = (blank_store 1)\<lparr>state := START, distance := 0\<rparr>" .
  from t mem have b: "distance (Grid_reset_algorithm_data ?g ?gs (0, 1)) = \<infinity>"
    and c: "\<not> is_path (Grid_reset_algorithm_data ?g ?gs (0, 1))" by blast+
  from ne mem a b c show ?thesis by blast
qed

subsection \<open>Predecessor chains\<close>

lemma walk_previous_chain:
  assumes "walk_previous s cur acc = Some r"
  shows "\<exists>chain. r = acc @ chain \<and> is_chain s cur chain"
proof (rule walk_previous.raw_induct
         [where P = "\<lambda>s cur acc r. \<exists>chain. r = acc @ chain \<and> is_chain s cur chain", OF _ assms])
  fix walk and s :: "'a store" and cur acc r
  assume IH: "\<And>s cur acc r. walk s cur acc = Some r \<Longrightarrow>
                 \<exists>chain. r = acc @ chain \<and> is_chain s cur chain"
    and eq: "(case cur of None \<Rightarrow> Some acc
              | Some c \<Rightarrow> walk s (previous (s c)) (acc @ [c])) = Some r"
  show "\<exists>chain. r = acc @ chain \<and> is_chain s cur chain"
  proof (cases cur)
    case None
    with eq show ?thesis by simp
  next
    case (Some c)
    with eq have "walk s (previous (s c)) (acc @ [c]) = Some r" by simp
    from IH[OF this] obtain chain
      where "r = (acc @ [c]) @ chain" "is_chain s (previous (s c)) chain"
      by blast
    with Some show ?thesis by (intro exI[of _ "c # chain"]) simp
  qed
qed

lemma chain_walk_previous:
  "is_chain s cur chain \<Longrightarrow> walk_previous s cur acc = Some (acc @ chain)"
proof (induction chain arbitrary: cur acc)
  case Nil
  then show ?case by (cases cur) (simp_all add: walk_previous.simps)
next
  case (Cons x xs)
  then obtain c where c: "cur = Some c" "x = c" "is_chain s (previous (s c)) xs"
    by (cases cur) auto
  from Cons.IH[OF c(3), of "acc @ [c]"] c show ?case
    by (subst walk_previous.simps) simp
qed

lemma walk_previous_iff:
  "walk_previous s cur [] = Some chain \<longleftrightarrow> is_chain s cur chain"
  using walk_previous_chain[of s cur "[]" chain] chain_walk_previous[of s cur chain "[]"]
  by auto

lemma is_chain_unique:
  "is_chain s cur xs \<Longrightarrow> is_chain s cur ys \<Longrightarrow> xs = ys"
proof (induction xs arbitrary: cur ys)
  case Nil
  then show ?case by (cases cur; cases ys) auto
next
  case (Cons x xs)
  then show ?case by (cases cur; cases ys) auto
qed

lemma is_chain_suffix:
  "is_chain s cur (xs @ y # ys) \<Longrightarrow> is_chain s (Some y) (y # ys)"
proof (induction xs arbitrary: cur)
  case Nil
  then show ?case by (cases cur) auto
next
  case (Cons x xs)
  then show ?case by (cases cur) auto
qed

lemma is_chain_distinct:
  assumes "is_chain s cur chain"
  shows "distinct chain"
proof (rule ccontr)
  assume "\<not> distinct chain"
  then obtain xs ys zs y where eq: "chain = xs @ [y] @ ys @ [y] @ zs"
    using not_distinct_decomp by blast
  have a: "is_chain s (Some y) (y # ys @ y # zs)"
    using is_chain_suffix[of s cur xs y "ys @ y # zs"] assms eq by simp
  have b: "is_chain s (Some y) (y # zs)"
    using is_chain_suffix[of s cur "xs @ y # ys" y zs] assms eq by simp
  from is_chain_unique[OF a b] show False by simp
qed

lemma is_chain_hd:
  "is_chain s cur chain \<Longrightarrow> chain \<noteq> [] \<Longrightarrow> cur = Some (hd chain)"
  by (cases cur; cases chain) auto

lemma is_chain_last:
  "is_chain s cur chain \<Longrightarrow> chain \<noteq> [] \<Longrightarrow> previous (s (last chain)) = None"
proof (induction chain arbitrary: cur)
  case Nil
  then show ?case by simp
next
  case (Cons x xs)
  then obtain c where c: "cur = Some c" "x = c" "is_chain s (previous (s c)) xs"
    by (cases cur) auto
  show ?case
  proof (cases xs)
    case Nil
    with c show ?thesis by (cases "previous (s c)") auto
  next
    case (Cons y ys)
    with Cons.IH[OF c(3)] show ?thesis by simp
  qed
qed

lemma interior_subset: "set (interior xs) \<subseteq> set xs"
  by (cases xs) (auto simp: interior_def dest: in_set_butlastD)

lemma hd_notin_interior: "distinct xs \<Longrightarrow> xs \<noteq> [] \<Longrightarrow> hd xs \<notin> set (interior xs)"
  by (cases xs) (auto simp: interior_def dest: in_set_butlastD)

lemma last_notin_interior: "distinct xs \<Longrightarrow> xs \<noteq> [] \<Longrightarrow> last xs \<notin> set (interior xs)"
proof (cases xs)
  case Nil
  assume "xs \<noteq> []" with Nil show ?thesis by simp
next
  case (Cons x ys)
  assume d: "distinct xs"
  show ?thesis
  proof (cases ys rule: rev_cases)
    case Nil
    with Cons show ?thesis by (simp add: interior_def)
  next
    case (snoc zs z)
    with Cons d show ?thesis by (auto simp: interior_def)
  qed
qed

lemma reconstruct_path_eq:
  "reconstruct_path e s = Some (e', s') \<longleftrightarrow>
     (if \<not> path_found e then e' = e \<and> s' = s
      else \<exists>chain. is_chain s (end_node e) chain \<and>
             e' = e\<lparr>path_length := int (length chain) - 1\<rparr> \<and>
             s' = fold (\<lambda>node s'. set_state s' node PATH) (interior chain) s)"
proof (cases "walk_previous s (end_node e) []")
  case None
  then have "\<not> is_chain s (end_node e) chain" for chain
    using chain_walk_previous[of s "end_node e" chain "[]"] by auto
  with None show ?thesis by (auto simp: reconstruct_path_def)
next
  case (Some xs)
  then have "is_chain s (end_node e) chain \<longleftrightarrow> chain = xs" for chain
    using walk_previous_iff[of s "end_node e"] is_chain_unique[of s "end_node e" chain xs]
    by auto
  with Some show ?thesis by (auto simp: reconstruct_path_def)
qed

subsection \<open>The branches of \<open>step\<close>\<close>

lemma heappop_nonempty:
  "q \<noteq> [] \<Longrightarrow> \<exists>x q'. heappop s q = Inr (x, q')"
  by (simp add: heappop_def Let_def)

lemma step_finished:
  "priority_queue e = [] \<or> is_complete e \<Longrightarrow>
   step e s = Some (Inr ((False, None), e\<lparr>is_complete := True, is_running := False\<rparr>, s))"
  unfolding step_def by (simp only: if_True)

lemma step_stale:
  assumes "priority_queue e \<noteq> []" "\<not> is_complete e"
    and "heappop s (priority_queue e) = Inr ((d, n), q)"
    and "distance (s n) < d \<or> n \<in> visited_nodes e"
  shows "step e s = Some (Inr ((True, None), e\<lparr>priority_queue := q\<rparr>, s))"
  using assms unfolding step_def by (auto simp: Let_def)

lemma step_found:
  assumes "priority_queue e \<noteq> []" "\<not> is_complete e"
    and "heappop s (priority_queue e) = Inr ((d, n), q)"
    and "\<not> distance (s n) < d" "n \<notin> visited_nodes e" "end_node e = Some n"
  shows "step e s =
           (case reconstruct_path
                   ((mark_visited e q n)\<lparr>path_found := True, is_complete := True,
                                          is_running := False\<rparr>) (tag_visited s n) of
              None \<Rightarrow> None
            | Some (e3, s3) \<Rightarrow> Some (Inr ((False, Some n), e3, s3)))"
  using assms unfolding step_def
  by (simp add: mark_visited_def tag_visited_def Let_def)

lemma step_expand:
  assumes "priority_queue e \<noteq> []" "\<not> is_complete e"
    and "heappop s (priority_queue e) = Inr ((d, n), q)"
    and "\<not> distance (s n) < d" "n \<notin> visited_nodes e" "end_node e \<noteq> Some n"
    and "fold (relax (mark_visited e q n) n) (neighbors (tag_visited s n n)) (q, tag_visited s n)
           = (q', s')"
  shows "step e s = Some (Inr ((True, Some n), (mark_visited e q n)\<lparr>priority_queue := q'\<rparr>, s'))"
  using assms unfolding step_def
  by (simp add: mark_visited_def tag_visited_def Let_def)

lemma step_cases [consumes 1, case_names finished stale seen found expand]:
  assumes "step e s = Some (Inr (r, e', s'))"
  obtains
    (finished) "priority_queue e = [] \<or> is_complete e" "r = (False, None)"
        "e' = e\<lparr>is_complete := True, is_running := False\<rparr>" "s' = s"
  | (stale) d n q where "priority_queue e \<noteq> []" "\<not> is_complete e"
        "heappop s (priority_queue e) = Inr ((d, n), q)" "distance (s n) < d"
        "r = (True, None)" "e' = e\<lparr>priority_queue := q\<rparr>" "s' = s"
  | (seen) d n q where "priority_queue e \<noteq> []" "\<not> is_complete e"
        "heappop s (priority_queue e) = Inr ((d, n), q)" "\<not> distance (s n) < d"
        "n \<in> visited_nodes e"
        "r = (True, None)" "e' = e\<lparr>priority_queue := q\<rparr>" "s' = s"
  | (found) d n q where "priority_queue e \<noteq> []" "\<not> is_complete e"
        "heappop s (priority_queue e) = Inr ((d, n), q)" "\<not> distance (s n) < d"
        "n \<notin> visited_nodes e" "end_node e = Some n"
        "reconstruct_path ((mark_visited e q n)\<lparr>path_found := True, is_complete := True,
                                               is_running := False\<rparr>) (tag_visited s n)
           = Some (e', s')"
        "r = (False, Some n)"
  | (expand) d n q q' where "priority_queue e \<noteq> []" "\<not> is_complete e"
        "heappop s (priority_queue e) = Inr ((d, n), q)" "\<not> distance (s n) < d"
        "n \<notin> visited_nodes e" "end_node e \<noteq> Some n"
        "fold (relax (mark_visited e q n) n) (neighbors (tag_visited s n n)) (q, tag_visited s n)
           = (q', s')"
        "e' = (mark_visited e q n)\<lparr>priority_queue := q'\<rparr>"
        "r = (True, Some n)"
proof (cases "priority_queue e = [] \<or> is_complete e")
  case True
  from step_finished[OF this, of s] assms
  have "r = (False, None)" "e' = e\<lparr>is_complete := True, is_running := False\<rparr>" "s' = s"
    by simp_all
  with True show ?thesis by (rule finished)
next
  case False
  then have ne: "priority_queue e \<noteq> []" and nc: "\<not> is_complete e" by simp_all
  from ne obtain d n q where pop: "heappop s (priority_queue e) = Inr ((d, n), q)"
    using heappop_nonempty[of "priority_queue e" s] by auto
  show ?thesis
  proof (cases "distance (s n) < d")
    case True
    then have "distance (s n) < d \<or> n \<in> visited_nodes e" by simp
    from step_stale[OF ne nc pop this] assms
    have "r = (True, None)" "e' = e\<lparr>priority_queue := q\<rparr>" "s' = s" by simp_all
    with ne nc pop True show ?thesis by (intro stale) simp_all
  next
    case nstale: False
    show ?thesis
    proof (cases "n \<in> visited_nodes e")
      case True
      then have "distance (s n) < d \<or> n \<in> visited_nodes e" by simp
      from step_stale[OF ne nc pop this] assms
      have "r = (True, None)" "e' = e\<lparr>priority_queue := q\<rparr>" "s' = s" by simp_all
      with ne nc pop nstale True show ?thesis by (intro seen) simp_all
    next
      case unseen: False
      show ?thesis
      proof (cases "end_node e = Some n")
        case True
        from step_found[OF ne nc pop nstale unseen True] assms
        have "reconstruct_path ((mark_visited e q n)\<lparr>path_found := True, is_complete := True,
                                               is_running := False\<rparr>) (tag_visited s n)
                = Some (e', s')" "r = (False, Some n)"
          by (auto split: option.splits)
        with ne nc pop nstale unseen True show ?thesis by (intro found) simp_all
      next
        case nend: False
        obtain q' s3 where
          f: "fold (relax (mark_visited e q n) n) (neighbors (tag_visited s n n)) (q, tag_visited s n)
                = (q', s3)"
          by (cases "fold (relax (mark_visited e q n) n) (neighbors (tag_visited s n n))
                       (q, tag_visited s n)")
        from step_expand[OF ne nc pop nstale unseen nend f] assms
        have "s' = s3" "e' = (mark_visited e q n)\<lparr>priority_queue := q'\<rparr>" "r = (True, Some n)"
          by simp_all
        with ne nc pop nstale unseen nend f show ?thesis by (intro expand) simp_all
      qed
    qed
  qed
qed

lemma step_no_error: "step e s \<noteq> Some (Inl err)"
proof (cases "priority_queue e = [] \<or> is_complete e")
  case True
  from step_finished[OF this, of s] show ?thesis by simp
next
  case False
  then obtain d n q where pop: "heappop s (priority_queue e) = Inr ((d, n), q)"
    using heappop_nonempty[of "priority_queue e" s] by auto
  with False show ?thesis
    unfolding step_def by (auto simp: Let_def split: option.splits prod.splits)
qed

lemma reconstruct_path_fields:
  assumes "reconstruct_path e s = Some (e', s')"
  shows "path_found e' = path_found e" "is_complete e' = is_complete e"
    "is_running e' = is_running e" "visited_nodes e' = visited_nodes e"
    "visited_count e' = visited_count e" "priority_queue e' = priority_queue e"
    "start_node e' = start_node e" "end_node e' = end_node e"
    "distance (s' n) = distance (s n)" "previous (s' n) = previous (s n)"
    "neighbors (s' n) = neighbors (s n)" "row (s' n) = row (s n)" "col (s' n) = col (s n)"
  using assms
  by (auto simp: reconstruct_path_def fold_set_state_apply split: if_splits option.splits)

lemma tag_visited_fields:
  "distance (tag_visited s n m) = distance (s m)" "previous (tag_visited s n m) = previous (s m)"
  "neighbors (tag_visited s n m) = neighbors (s m)" "row (tag_visited s n m) = row (s m)"
  "col (tag_visited s n m) = col (s m)"
  by (simp_all add: tag_visited_def set_state_apply)

text \<open>
  Claim C7.  When the popped entry records a distance above the current distance of its
  node, or its node is already visited, \<open>step\<close> returns \<open>(True, None)\<close>, raises nothing,
  leaves every node as it was and changes nothing of the engine but the queue, from which
  the entry is gone; in particular \<open>visited_count\<close> is not incremented.
\<close>

theorem step_discards_stale_entry:
  assumes "priority_queue e \<noteq> []" and "\<not> is_complete e"
    and "heappop s (priority_queue e) = Inr ((d, n), q)"
    and "distance (s n) < d \<or> n \<in> visited_nodes e"
  shows "step e s = Some (Inr ((True, None), e\<lparr>priority_queue := q\<rparr>, s)) \<and>
         visited_count (e\<lparr>priority_queue := q\<rparr>) = visited_count e \<and>
         visited_nodes (e\<lparr>priority_queue := q\<rparr>) = visited_nodes e"
  using step_stale[OF assms] by simp

theorem step_discards_stale_entry_witness:
  "priority_queue (engine_mid (Some ''c'') [(5, ''b'')]) \<noteq> [] \<and>
   \<not> is_complete (engine_mid (Some ''c'') [(5, ''b'')]) \<and>
   heappop line3_mid (priority_queue (engine_mid (Some ''c'') [(5, ''b'')])) = Inr ((5, ''b''), []) \<and>
   distance (line3_mid ''b'') < 5 \<and>
   step (engine_mid (Some ''c'') [(5, ''b'')]) line3_mid =
     Some (Inr ((True, None), engine_mid (Some ''c'') [], line3_mid))"
proof -
  let ?e = "engine_mid (Some ''c'') [(5, ''b'')]"
  have a: "priority_queue ?e \<noteq> []" and b: "\<not> is_complete ?e"
    by (simp_all add: engine_mid_def)
  have c: "heappop line3_mid (priority_queue ?e) = Inr ((5, ''b''), [])"
    by (simp add: engine_mid_def heappop_def)
  have d: "distance (line3_mid ''b'') < 5"
    by (simp add: line3_mid_def one_enat_def numeral_eq_enat)
  then have d': "distance (line3_mid ''b'') < 5 \<or> ''b'' \<in> visited_nodes ?e" by simp
  have "?e\<lparr>priority_queue := []\<rparr> = engine_mid (Some ''c'') []"
    by (simp add: engine_mid_def)
  with step_discards_stale_entry[OF a b c d'] a b c d show ?thesis by simp
qed

subsection \<open>What a step leaves unchanged\<close>

lemma relax_frame:
  assumes "relax e c nb (q, s) = (q', s')"
  shows "(m \<noteq> nb \<or> nb \<in> visited_nodes e \<longrightarrow> s' m = s m) \<and>
         state (s' m) = state (s m) \<and> neighbors (s' m) = neighbors (s m) \<and>
         row (s' m) = row (s m) \<and> col (s' m) = col (s m)"
  using assms by (auto simp: relax_def Let_def split: if_splits)

lemma fold_relax_frame:
  "fold (relax e c) nbs (q, s) = (q', s') \<Longrightarrow>
     (m \<notin> set nbs \<or> m \<in> visited_nodes e \<longrightarrow> s' m = s m) \<and>
     state (s' m) = state (s m) \<and> neighbors (s' m) = neighbors (s m) \<and>
     row (s' m) = row (s m) \<and> col (s' m) = col (s m)"
proof (induction nbs arbitrary: q s)
  case Nil
  then show ?case by simp
next
  case (Cons nb nbs)
  obtain q1 s1 where r: "relax e c nb (q, s) = (q1, s1)" by (cases "relax e c nb (q, s)")
  with Cons.prems have f: "fold (relax e c) nbs (q1, s1) = (q', s')" by (simp add: r)
  from Cons.IH[OF f] relax_frame[OF r, of m] show ?case by auto
qed

lemma step_visited_mono:
  assumes "step e s = Some (Inr (r, e', s'))"
  shows "visited_nodes e \<subseteq> visited_nodes e'"
  using assms
proof (cases rule: step_cases)
  case (found d n q)
  from reconstruct_path_fields(4)[OF found(7)] show ?thesis by (auto simp: mark_visited_def)
qed (auto simp: mark_visited_def)

lemma step_visited_frame:
  assumes "step e s = Some (Inr (r, e', s'))" and "n \<in> visited_nodes e'"
  shows "distance (s' n) = distance (s n) \<and> previous (s' n) = previous (s n)"
  using assms(1)
proof (cases rule: step_cases)
  case (found d m q)
  from reconstruct_path_fields(9,10)[OF found(7), of n] show ?thesis
    by (simp add: tag_visited_fields)
next
  case (expand d m q q')
  from assms(2) expand(8) have "n \<in> visited_nodes (mark_visited e q m)" by simp
  with fold_relax_frame[OF expand(7), of n]
  have "s' n = tag_visited s m n" by simp
  then show ?thesis by (simp add: tag_visited_fields)
qed simp_all

text \<open>
  Claim C4.  A call of \<open>step\<close> leaves the distance of every node that is in the visited
  set when the call returns as it was before the call: so the call that adds a node to
  the visited set does not change its distance, and no later call does.  Over any number
  of calls of \<open>step\<close> on one engine, a node once visited stays visited and keeps its
  distance.
\<close>

theorem visited_distance_final:
  "(step e s = Some (Inr (r, e1, s1)) \<longrightarrow> n \<in> visited_nodes e1 \<longrightarrow>
      distance (s1 n) = distance (s n)) \<and>
   (steps k e s = Some (Inr (e', s')) \<longrightarrow> n \<in> visited_nodes e \<longrightarrow>
      n \<in> visited_nodes e' \<and> distance (s' n) = distance (s n))"
proof (intro conjI impI)
  assume "step e s = Some (Inr (r, e1, s1))" "n \<in> visited_nodes e1"
  from step_visited_frame[OF this] show "distance (s1 n) = distance (s n)" by simp
next
  assume "steps k e s = Some (Inr (e', s'))" "n \<in> visited_nodes e"
  then have "n \<in> visited_nodes e' \<and> distance (s' n) = distance (s n)"
  proof (induction k arbitrary: e s)
    case 0
    then show ?case by simp
  next
    case (Suc k)
    from Suc.prems(1) obtain r e1 s1 where st: "step e s = Some (Inr (r, e1, s1))"
      and rest: "steps k e1 s1 = Some (Inr (e', s'))"
      by (auto split: option.splits sum.splits simp: step_no_error)
    from step_visited_mono[OF st] Suc.prems(2) have v: "n \<in> visited_nodes e1" by auto
    from step_visited_frame[OF st v] Suc.IH[OF rest v] show ?case by simp
  qed
  then show "n \<in> visited_nodes e'" "distance (s' n) = distance (s n)" by simp_all
qed

lemma step_mid_example:
  "\<exists>e' s'. step (engine_mid (Some ''c'') [(1, ''b'')]) line3_mid = Some (Inr ((True, Some ''b''), e', s')) \<and>
     visited_nodes e' = {''a'', ''b''} \<and> priority_queue e' = [(2, ''c'')] \<and> distance (s' ''c'') = 2"
  by (simp add: step_def engine_mid_def line3_mid_def line3_def blank_store_def Node_init_def
        heappop_def heappush_def siftdown_def siftdown_loop.simps relax_def Let_def
        is_start_def is_end_def set_state_def one_enat_def numeral_eq_enat insert_commute)

theorem visited_distance_final_witness:
  "''a'' \<in> visited_nodes (engine_mid (Some ''c'') [(1, ''b'')]) \<and>
   (\<exists>e' s'. steps 1 (engine_mid (Some ''c'') [(1, ''b'')]) line3_mid = Some (Inr (e', s')) \<and>
            ''a'' \<in> visited_nodes e' \<and> distance (s' ''a'') = distance (line3_mid ''a'')) \<and>
   (\<exists>r e1 s1. step (engine_mid (Some ''c'') [(1, ''b'')]) line3_mid = Some (Inr (r, e1, s1)) \<and>
            ''b'' \<in> visited_nodes e1 \<and> distance (s1 ''b'') = distance (line3_mid ''b''))"
proof -
  let ?e = "engine_mid (Some ''c'') [(1, ''b'')]"
  from step_mid_example obtain e1 s1
    where st: "step ?e line3_mid = Some (Inr ((True, Some ''b''), e1, s1))"
      and v: "visited_nodes e1 = {''a'', ''b''}"
    by blast
  have a: "''a'' \<in> visited_nodes ?e" by (simp add: engine_mid_def)
  from v have b: "''b'' \<in> visited_nodes e1" by simp
  from st have ss: "steps 1 ?e line3_mid = Some (Inr (e1, s1))" by simp
  note t = visited_distance_final[of ?e line3_mid "(True, Some ''b'')" e1 s1 _ 1 e1 s1]
  from t[of "''b''"] st b have c: "distance (s1 ''b'') = distance (line3_mid ''b'')" by blast
  from t[of "''a''"] ss a
  have d: "''a'' \<in> visited_nodes e1 \<and> distance (s1 ''a'') = distance (line3_mid ''a'')" by blast
  from a st ss b c d show ?thesis by blast
qed

subsection \<open>Construction\<close>

lemma run_same_endpoints:
  assumes "previous (s a) = None"
  shows "run_dijkstra_complete (Some a) (Some a) s =
           Some (Inr ((True, \<lparr>stats_visited_count = 1, stats_path_length = 0,
                              stats_is_running = False, stats_is_complete = True,
                              stats_path_found = True\<rparr>),
                      tag_visited (s(a := (s a)\<lparr>distance := 0\<rparr>)) a))"
proof -
  let ?s0 = "s(a := (s a)\<lparr>distance := 0\<rparr>)"
  let ?e0 = "\<lparr>start_node = Some a, end_node = Some a, visited_count = 0, path_length = 0,
              is_running = True, is_complete = False, path_found = False,
              priority_queue = [(0, a)], visited_nodes = {}\<rparr>"
  let ?e2 = "(mark_visited ?e0 [] a)\<lparr>path_found := True, is_complete := True, is_running := False\<rparr>"
  have pop: "heappop ?s0 (priority_queue ?e0) = Inr ((0, a), [])"
    by (simp add: heappop_def)
  have ch: "is_chain (tag_visited ?s0 a) (end_node ?e2) [a]"
    using assms by (simp add: mark_visited_def tag_visited_fields)
  from ch have "walk_previous (tag_visited ?s0 a) (end_node ?e2) [] = Some [a]"
    by (simp only: walk_previous_iff)
  then have rp: "reconstruct_path ?e2 (tag_visited ?s0 a) =
              Some (?e2\<lparr>path_length := 0\<rparr>, tag_visited ?s0 a)"
    by (simp add: reconstruct_path_def interior_def mark_visited_def)
  have st: "step ?e0 ?s0 = Some (Inr ((False, Some a), ?e2\<lparr>path_length := 0\<rparr>, tag_visited ?s0 a))"
    using step_found[of ?e0 ?s0 0 a "[]"] pop rp by simp
  have "run_complete_loop ?e0 ?s0 = Some (Inr (?e2\<lparr>path_length := 0\<rparr>, tag_visited ?s0 a))"
    by (subst run_complete_loop.simps) (simp add: st)
  then show ?thesis
    by (simp add: run_dijkstra_complete_def DijkstraAlgorithm_init_def run_complete_def
          get_stats_def mark_visited_def)
qed

text \<open>
  Claim C5, as the code has it.  The constructor validates nothing and there is no
  \<open>InvalidEndpoints\<close> error: given a start node it returns a new engine, with the end
  node it was given (the start node itself, any other node, or none), and sets the
  distance of the start node to 0, leaving every other field of every node alone.  Given
  no start node it raises \<open>AttributeError\<close> and returns no engine.  An engine built with
  the same node as start and end finds its path at the first step, with length 0, when
  the node has no predecessor link.
\<close>

theorem init_accepts_any_endpoints:
  "DijkstraAlgorithm_init None end s = Inl AttributeError \<and>
   DijkstraAlgorithm_init (Some a) end s =
     Inr (\<lparr>start_node = Some a, end_node = end, visited_count = 0, path_length = 0,
           is_running = False, is_complete = False, path_found = False,
           priority_queue = [(0, a)], visited_nodes = {}\<rparr>,
          s(a := (s a)\<lparr>distance := 0\<rparr>)) \<and>
   (previous (s a) = None \<longrightarrow>
      run_dijkstra_complete (Some a) (Some a) s =
        Some (Inr ((True, \<lparr>stats_visited_count = 1, stats_path_length = 0,
                           stats_is_running = False, stats_is_complete = True,
                           stats_path_found = True\<rparr>),
                   tag_visited (s(a := (s a)\<lparr>distance := 0\<rparr>)) a)))"
  using run_same_endpoints[of s a] by (simp add: DijkstraAlgorithm_init_def)

theorem init_accepts_any_endpoints_witness:
  "previous (line3 ''a'') = None \<and>
   run_dijkstra_complete (Some ''a'') (Some ''a'') line3 =
     Some (Inr ((True, \<lparr>stats_visited_count = 1, stats_path_length = 0,
                        stats_is_running = False, stats_is_complete = True,
                        stats_path_found = True\<rparr>),
                tag_visited (line3(''a'' := (line3 ''a'')\<lparr>distance := 0\<rparr>)) ''a''))"
proof -
  have p: "previous (line3 ''a'') = None"
    by (simp add: line3_def blank_store_def Node_init_def)
  with init_accepts_any_endpoints[of "Some ''a''" line3 "''a''"] show ?thesis by blast
qed

theorem init_same_endpoints_counterexample:
  "\<not> isl (DijkstraAlgorithm_init (Some ''a'') (Some ''a'') line3) \<and>
   end_node (fst (projr (DijkstraAlgorithm_init (Some ''a'') (Some ''a'') line3))) = Some ''a'' \<and>
   start_node (fst (projr (DijkstraAlgorithm_init (Some ''a'') (Some ''a'') line3))) = Some ''a'' \<and>
   distance (line3 ''a'') = \<infinity> \<and>
   distance (snd (projr (DijkstraAlgorithm_init (Some ''a'') (Some ''a'') line3)) ''a'') = 0"
  by (simp add: DijkstraAlgorithm_init_def line3_def blank_store_def Node_init_def)

subsection \<open>The grid keeps at most one start and one end\<close>

lemma length_upto0: "length [0..n - 1] = nat n"
  by simp

lemma nth_upto0: "0 \<le> r \<Longrightarrow> r < n \<Longrightarrow> [0..n - 1] ! nat r = r"
  by (simp add: nth_upto)























subsection \<open>Stepping and running to completion\<close>

lemma relax_visited_only: "visited_nodes e = visited_nodes e' \<Longrightarrow> relax e = relax e'"
  by (rule ext)+ (simp add: relax_def)

lemma step_is_running:
  "step (e\<lparr>is_running := b\<rparr>) s =
     map_option (map_sum id (\<lambda>((c, n), e', s'). ((c, n), (if c then e'\<lparr>is_running := b\<rparr> else e'), s')))
       (step e s)"
proof (cases "priority_queue e = [] \<or> is_complete e")
  case True
  then have "priority_queue (e\<lparr>is_running := b\<rparr>) = [] \<or> is_complete (e\<lparr>is_running := b\<rparr>)"
    by simp
  from step_finished[OF this, of s] step_finished[OF True, of s] show ?thesis by simp
next
  case False
  let ?e = "e\<lparr>is_running := b\<rparr>"
  from False have ne: "priority_queue e \<noteq> []" "\<not> is_complete e"
    and ne': "priority_queue ?e \<noteq> []" "\<not> is_complete ?e" by simp_all
  from ne obtain d n q where pop: "heappop s (priority_queue e) = Inr ((d, n), q)"
    using heappop_nonempty[of "priority_queue e" s] by auto
  then have pop': "heappop s (priority_queue ?e) = Inr ((d, n), q)" by simp
  show ?thesis
  proof (cases "distance (s n) < d \<or> n \<in> visited_nodes e")
    case True
    then have "distance (s n) < d \<or> n \<in> visited_nodes ?e" by simp
    from step_stale[OF ne' pop' this] step_stale[OF ne pop True] show ?thesis by simp
  next
    case fresh: False
    then have f: "\<not> distance (s n) < d" "n \<notin> visited_nodes e"
      and f': "n \<notin> visited_nodes ?e" by simp_all
    show ?thesis
    proof (cases "end_node e = Some n")
      case True
      then have "end_node ?e = Some n" by simp
      from step_found[OF ne' pop' f(1) f' this] step_found[OF ne pop f True]
      show ?thesis by (auto simp: mark_visited_def split: option.splits)
    next
      case False
      then have en': "end_node ?e \<noteq> Some n" by simp
      obtain q' s3 where
        fo: "fold (relax (mark_visited e q n) n) (neighbors (tag_visited s n n)) (q, tag_visited s n)
               = (q', s3)"
        by (cases "fold (relax (mark_visited e q n) n) (neighbors (tag_visited s n n))
                     (q, tag_visited s n)")
      have "relax (mark_visited ?e q n) = relax (mark_visited e q n)"
        by (rule relax_visited_only) (simp add: mark_visited_def)
      with fo have fo': "fold (relax (mark_visited ?e q n) n) (neighbors (tag_visited s n n))
                           (q, tag_visited s n) = (q', s3)" by simp
      from step_expand[OF ne' pop' f(1) f' en' fo'] step_expand[OF ne pop f False fo]
      show ?thesis by (simp add: mark_visited_def)
    qed
  qed
qed

lemma step_continue_not_complete:
  assumes "step e s = Some (Inr ((True, n), e', s'))" "\<not> is_complete e"
  shows "\<not> is_complete e'"
  using assms by (cases rule: step_cases) (auto simp: mark_visited_def)

lemma step_stop_flags:
  assumes "step e s = Some (Inr ((False, n), e', s'))"
  shows "is_complete e' \<and> \<not> is_running e'"
  using assms
proof (cases rule: step_cases)
  case (found d m q)
  from reconstruct_path_fields(2,3)[OF found(7)] show ?thesis by simp
qed auto

lemma run_complete_loop_is_running_imp:
  assumes "run_complete_loop e s = Some x" and "\<not> is_complete e"
  shows "run_complete_loop (e\<lparr>is_running := b\<rparr>) s = Some x"
proof -
  have "\<not> is_complete e \<longrightarrow> run_complete_loop (e\<lparr>is_running := b\<rparr>) s = Some x"
  proof (rule run_complete_loop.raw_induct
           [where P = "\<lambda>e s x. \<not> is_complete e \<longrightarrow>
                                  run_complete_loop (e\<lparr>is_running := b\<rparr>) s = Some x",
            OF _ assms(1)])
    fix loop and e :: "'a DijkstraAlgorithm" and s :: "'a store" and x
    assume IH: "\<And>e s x. loop e s = Some x \<Longrightarrow>
                  \<not> is_complete e \<longrightarrow> run_complete_loop (e\<lparr>is_running := b\<rparr>) s = Some x"
      and eq: "(if \<not> is_complete e then
                  (case step e s of
                     None \<Rightarrow> None
                   | Some (Inl err) \<Rightarrow> Some (Inl err)
                   | Some (Inr ((continue_running, current_node), e', s')) \<Rightarrow>
                       if \<not> continue_running then Some (Inr (e', s')) else loop e' s')
                else Some (Inr (e, s))) = Some x"
    show "\<not> is_complete e \<longrightarrow> run_complete_loop (e\<lparr>is_running := b\<rparr>) s = Some x"
    proof
      assume nc: "\<not> is_complete e"
      with eq obtain c n e' s' where st: "step e s = Some (Inr ((c, n), e', s'))"
        by (auto split: option.splits sum.splits simp: step_no_error)
      show "run_complete_loop (e\<lparr>is_running := b\<rparr>) s = Some x"
      proof (cases c)
        case True
        with eq nc st have "loop e' s' = Some x" by simp
        from IH[OF this] step_continue_not_complete[of e s n e' s'] st True nc
        have "run_complete_loop (e'\<lparr>is_running := b\<rparr>) s' = Some x" by simp
        with st True nc show ?thesis
          by (subst run_complete_loop.simps) (simp add: step_is_running)
      next
        case False
        with eq nc st have "x = Inr (e', s')" by simp
        with st False nc show ?thesis
          by (subst run_complete_loop.simps) (simp add: step_is_running)
      qed
    qed
  qed
  with assms(2) show ?thesis by simp
qed

lemma run_complete_loop_is_running:
  assumes "\<not> is_complete e"
  shows "run_complete_loop (e\<lparr>is_running := b\<rparr>) s = run_complete_loop e s"
proof (cases "run_complete_loop e s")
  case (Some x)
  with run_complete_loop_is_running_imp[OF Some assms, of b] show ?thesis by simp
next
  case None
  show ?thesis
  proof (cases "run_complete_loop (e\<lparr>is_running := b\<rparr>) s")
    case (Some x)
    from run_complete_loop_is_running_imp[OF Some, of "is_running e"] assms
    have "run_complete_loop e s = Some x" by simp
    with None show ?thesis by simp
  next
    case None': None
    with None show ?thesis by simp
  qed
qed

lemma drive_steps_imp_run:
  assumes "drive_steps e s = Some x" and "\<not> is_complete e"
  shows "run_complete_loop e s = Some x"
proof -
  have "\<not> is_complete e \<longrightarrow> run_complete_loop e s = Some x"
  proof (rule drive_steps.raw_induct
           [where P = "\<lambda>e s x. \<not> is_complete e \<longrightarrow> run_complete_loop e s = Some x",
            OF _ assms(1)])
    fix drive and e :: "'a DijkstraAlgorithm" and s :: "'a store" and x
    assume IH: "\<And>e s x. drive e s = Some x \<Longrightarrow>
                  \<not> is_complete e \<longrightarrow> run_complete_loop e s = Some x"
      and eq: "(case step e s of
                  None \<Rightarrow> None
                | Some (Inl err) \<Rightarrow> Some (Inl err)
                | Some (Inr ((should_continue, touched), e', s')) \<Rightarrow>
                    if should_continue then drive e' s' else Some (Inr (e', s'))) = Some x"
    show "\<not> is_complete e \<longrightarrow> run_complete_loop e s = Some x"
    proof
      assume nc: "\<not> is_complete e"
      from eq obtain c n e' s' where st: "step e s = Some (Inr ((c, n), e', s'))"
        by (auto split: option.splits sum.splits simp: step_no_error)
      show "run_complete_loop e s = Some x"
      proof (cases c)
        case True
        with eq st have "drive e' s' = Some x" by simp
        from IH[OF this] step_continue_not_complete[of e s n e' s'] st True nc
        have "run_complete_loop e' s' = Some x" by simp
        with st True nc show ?thesis by (subst run_complete_loop.simps) simp
      next
        case False
        with eq st have "x = Inr (e', s')" by simp
        with st False nc show ?thesis by (subst run_complete_loop.simps) simp
      qed
    qed
  qed
  with assms(2) show ?thesis by simp
qed

lemma run_imp_drive_steps:
  assumes "run_complete_loop e s = Some x" and "\<not> is_complete e"
  shows "drive_steps e s = Some x"
proof -
  have "\<not> is_complete e \<longrightarrow> drive_steps e s = Some x"
  proof (rule run_complete_loop.raw_induct
           [where P = "\<lambda>e s x. \<not> is_complete e \<longrightarrow> drive_steps e s = Some x",
            OF _ assms(1)])
    fix loop and e :: "'a DijkstraAlgorithm" and s :: "'a store" and x
    assume IH: "\<And>e s x. loop e s = Some x \<Longrightarrow>
                  \<not> is_complete e \<longrightarrow> drive_steps e s = Some x"
      and eq: "(if \<not> is_complete e then
                  (case step e s of
                     None \<Rightarrow> None
                   | Some (Inl err) \<Rightarrow> Some (Inl err)
                   | Some (Inr ((continue_running, current_node), e', s')) \<Rightarrow>
                       if \<not> continue_running then Some (Inr (e', s')) else loop e' s')
                else Some (Inr (e, s))) = Some x"
    show "\<not> is_complete e \<longrightarrow> drive_steps e s = Some x"
    proof
      assume nc: "\<not> is_complete e"
      with eq obtain c n e' s' where st: "step e s = Some (Inr ((c, n), e', s'))"
        by (auto split: option.splits sum.splits simp: step_no_error)
      show "drive_steps e s = Some x"
      proof (cases c)
        case True
        with eq nc st have "loop e' s' = Some x" by simp
        from IH[OF this] step_continue_not_complete[of e s n e' s'] st True nc
        have "drive_steps e' s' = Some x" by simp
        with st True show ?thesis by (subst drive_steps.simps) simp
      next
        case False
        with eq nc st have "x = Inr (e', s')" by simp
        with st False show ?thesis by (subst drive_steps.simps) simp
      qed
    qed
  qed
  with assms(2) show ?thesis by simp
qed

lemma drive_steps_eq_run:
  assumes "\<not> is_complete e"
  shows "drive_steps e s = run_complete_loop e s"
proof (cases "drive_steps e s")
  case (Some x)
  with drive_steps_imp_run[OF Some assms] show ?thesis by simp
next
  case None
  then show ?thesis
    using run_imp_drive_steps[OF _ assms, of s] by (cases "run_complete_loop e s") auto
qed

lemma step_by_step_imp_run:
  assumes "step_by_step_loop e s acc = Some x"
  shows "run_complete_loop e s = Some (map_sum id snd x) \<and>
         (\<forall>ys e' s'. x = Inr (ys, e', s') \<longrightarrow> \<not> is_complete e \<longrightarrow>
            ys \<noteq> [] \<and> \<not> fst (last ys) \<and> snd (snd (last ys)) = get_stats e')"
proof (rule step_by_step_loop.raw_induct
         [where P = "\<lambda>e s acc x. run_complete_loop e s = Some (map_sum id snd x) \<and>
                       (\<forall>ys e' s'. x = Inr (ys, e', s') \<longrightarrow> \<not> is_complete e \<longrightarrow>
                          ys \<noteq> [] \<and> \<not> fst (last ys) \<and> snd (snd (last ys)) = get_stats e')",
          OF _ assms])
  fix loop and e :: "'a DijkstraAlgorithm" and s :: "'a store" and acc x
  assume IH: "\<And>e s acc x. loop e s acc = Some x \<Longrightarrow>
                run_complete_loop e s = Some (map_sum id snd x) \<and>
                (\<forall>ys e' s'. x = Inr (ys, e', s') \<longrightarrow> \<not> is_complete e \<longrightarrow>
                   ys \<noteq> [] \<and> \<not> fst (last ys) \<and> snd (snd (last ys)) = get_stats e')"
    and eq: "(if \<not> is_complete e then
                (case step e s of
                   None \<Rightarrow> None
                 | Some (Inl err) \<Rightarrow> Some (Inl err)
                 | Some (Inr ((continue_running, current_node), e', s')) \<Rightarrow>
                     (let yielded' = acc @ [(continue_running, current_node, get_stats e')] in
                      if \<not> continue_running then Some (Inr (yielded', e', s'))
                      else loop e' s' yielded'))
              else Some (Inr (acc, e, s))) = Some x"
  show "run_complete_loop e s = Some (map_sum id snd x) \<and>
        (\<forall>ys e' s'. x = Inr (ys, e', s') \<longrightarrow> \<not> is_complete e \<longrightarrow>
           ys \<noteq> [] \<and> \<not> fst (last ys) \<and> snd (snd (last ys)) = get_stats e')"
  proof (cases "is_complete e")
    case True
    with eq show ?thesis by (subst run_complete_loop.simps) auto
  next
    case nc: False
    with eq obtain c n e' s' where st: "step e s = Some (Inr ((c, n), e', s'))"
      by (auto split: option.splits sum.splits simp: step_no_error)
    show ?thesis
    proof (cases c)
      case True
      with eq nc st have "loop e' s' (acc @ [(c, n, get_stats e')]) = Some x" by simp
      from IH[OF this] step_continue_not_complete[of e s n e' s'] st True nc
      have "run_complete_loop e' s' = Some (map_sum id snd x) \<and>
            (\<forall>ys e'' s''. x = Inr (ys, e'', s'') \<longrightarrow>
               ys \<noteq> [] \<and> \<not> fst (last ys) \<and> snd (snd (last ys)) = get_stats e'')"
        by simp
      with st True nc show ?thesis by (subst run_complete_loop.simps) simp
    next
      case False
      with eq nc st have "x = Inr (acc @ [(c, n, get_stats e')], e', s')" by simp
      with st False nc show ?thesis by (subst run_complete_loop.simps) simp
    qed
  qed
qed

lemma run_imp_step_by_step:
  assumes "run_complete_loop e s = Some y"
  shows "\<exists>x. step_by_step_loop e s acc = Some x \<and> y = map_sum id snd x"
proof -
  have "\<forall>acc. \<exists>x. step_by_step_loop e s acc = Some x \<and> y = map_sum id snd x"
  proof (rule run_complete_loop.raw_induct
           [where P = "\<lambda>e s y. \<forall>acc. \<exists>x. step_by_step_loop e s acc = Some x \<and>
                                           y = map_sum id snd x",
            OF _ assms])
    fix loop and e :: "'a DijkstraAlgorithm" and s :: "'a store" and y
    assume IH: "\<And>e s y. loop e s = Some y \<Longrightarrow>
                  \<forall>acc. \<exists>x. step_by_step_loop e s acc = Some x \<and> y = map_sum id snd x"
      and eq: "(if \<not> is_complete e then
                  (case step e s of
                     None \<Rightarrow> None
                   | Some (Inl err) \<Rightarrow> Some (Inl err)
                   | Some (Inr ((continue_running, current_node), e', s')) \<Rightarrow>
                       if \<not> continue_running then Some (Inr (e', s')) else loop e' s')
                else Some (Inr (e, s))) = Some y"
    show "\<forall>acc. \<exists>x. step_by_step_loop e s acc = Some x \<and> y = map_sum id snd x"
    proof
      fix acc :: "(bool \<times> 'a option \<times> stats) list"
      show "\<exists>x. step_by_step_loop e s acc = Some x \<and> y = map_sum id snd x"
      proof (cases "is_complete e")
        case True
        with eq show ?thesis by (subst step_by_step_loop.simps) auto
      next
        case nc: False
        with eq obtain c n e' s' where st: "step e s = Some (Inr ((c, n), e', s'))"
          by (auto split: option.splits sum.splits simp: step_no_error)
        show ?thesis
        proof (cases c)
          case True
          with eq nc st have "loop e' s' = Some y" by simp
          from IH[OF this] obtain x
            where "step_by_step_loop e' s' (acc @ [(c, n, get_stats e')]) = Some x"
              and "y = map_sum id snd x" by blast
          with st True nc show ?thesis by (subst step_by_step_loop.simps) simp
        next
          case False
          with eq nc st have "y = Inr (e', s')" by simp
          with st False nc show ?thesis by (subst step_by_step_loop.simps) simp
        qed
      qed
    qed
  qed
  then show ?thesis by blast
qed

lemma step_by_step_eq_run:
  "map_option (map_sum id snd) (step_by_step_loop e s acc) = run_complete_loop e s"
proof (cases "step_by_step_loop e s acc")
  case (Some x)
  with step_by_step_imp_run[OF Some] show ?thesis by simp
next
  case None
  then show ?thesis
    using run_imp_step_by_step[of e s _ acc] by (cases "run_complete_loop e s") auto
qed

text \<open>
  Claim C3.  For an engine just constructed for a start and an end node on any store,
  calling \<open>step\<close> until it returns \<open>False\<close> and calling \<open>run_complete\<close> have the same
  outcome: neither returns, or both return and leave the same engine (hence the same
  \<open>visited_count\<close>, \<open>path_length\<close> and \<open>path_found\<close>) and the same store.  The same
  holds between the generator \<open>run_dijkstra_step_by_step\<close> driven to its end and
  \<open>run_dijkstra_complete\<close>: they leave the same store, and the statistics of the
  last triple the generator yields, which is its only triple with \<open>False\<close>, are the
  statistics \<open>run_dijkstra_complete\<close> returns.
\<close>

theorem step_run_equivalence:
  "(DijkstraAlgorithm_init start end s = Inr (e0, s0) \<longrightarrow>
      (case drive_steps e0 s0 of
         None \<Rightarrow> run_complete e0 s0 = None
       | Some (Inl err) \<Rightarrow> run_complete e0 s0 = Some (Inl err)
       | Some (Inr (e', s')) \<Rightarrow> run_complete e0 s0 = Some (Inr (path_found e', e', s')))) \<and>
   (case run_dijkstra_step_by_step start end s of
      None \<Rightarrow> run_dijkstra_complete start end s = None
    | Some (Inl err) \<Rightarrow> run_dijkstra_complete start end s = Some (Inl err)
    | Some (Inr (ys, e', s')) \<Rightarrow>
        run_dijkstra_complete start end s = Some (Inr ((path_found e', get_stats e'), s')) \<and>
        ys \<noteq> [] \<and> \<not> fst (last ys) \<and> snd (snd (last ys)) = get_stats e')"
proof (intro conjI impI)
  assume init: "DijkstraAlgorithm_init start end s = Inr (e0, s0)"
  then have nc: "\<not> is_complete e0"
    by (auto simp: DijkstraAlgorithm_init_def split: option.splits)
  have "run_complete_loop (e0\<lparr>is_running := True\<rparr>) s0 = drive_steps e0 s0"
    by (simp add: run_complete_loop_is_running[OF nc] drive_steps_eq_run[OF nc])
  then show "case drive_steps e0 s0 of
         None \<Rightarrow> run_complete e0 s0 = None
       | Some (Inl err) \<Rightarrow> run_complete e0 s0 = Some (Inl err)
       | Some (Inr (e', s')) \<Rightarrow> run_complete e0 s0 = Some (Inr (path_found e', e', s'))"
    by (auto simp: run_complete_def split: option.splits sum.splits)
next
  show "case run_dijkstra_step_by_step start end s of
      None \<Rightarrow> run_dijkstra_complete start end s = None
    | Some (Inl err) \<Rightarrow> run_dijkstra_complete start end s = Some (Inl err)
    | Some (Inr (ys, e', s')) \<Rightarrow>
        run_dijkstra_complete start end s = Some (Inr ((path_found e', get_stats e'), s')) \<and>
        ys \<noteq> [] \<and> \<not> fst (last ys) \<and> snd (snd (last ys)) = get_stats e'"
  proof (cases "DijkstraAlgorithm_init start end s")
    case (Inl err)
    then show ?thesis
      by (simp add: run_dijkstra_step_by_step_def run_dijkstra_complete_def)
  next
    case (Inr es)
    obtain e0 s0 where es: "es = (e0, s0)" by (cases es)
    with Inr have nc: "\<not> is_complete e0"
      by (auto simp: DijkstraAlgorithm_init_def split: option.splits)
    let ?e = "e0\<lparr>is_running := True\<rparr>"
    from nc have nc': "\<not> is_complete ?e" by simp
    have gen: "run_dijkstra_step_by_step start end s = step_by_step_loop ?e s0 []"
      using Inr es by (simp add: run_dijkstra_step_by_step_def)
    have run: "run_dijkstra_complete start end s =
                 (case run_complete_loop ?e s0 of
                    None \<Rightarrow> None
                  | Some (Inl err) \<Rightarrow> Some (Inl err)
                  | Some (Inr (e', s')) \<Rightarrow> Some (Inr ((path_found e', get_stats e'), s')))"
      using Inr es
      by (auto simp: run_dijkstra_complete_def run_complete_def split: option.splits sum.splits)
    show ?thesis
    proof (cases "step_by_step_loop ?e s0 []")
      case None
      with step_by_step_eq_run[of ?e s0 "[]"] gen run show ?thesis by simp
    next
      case (Some x)
      from step_by_step_imp_run[OF Some] nc'
      have a: "run_complete_loop ?e s0 = Some (map_sum id snd x)"
        and b: "\<forall>ys e' s'. x = Inr (ys, e', s') \<longrightarrow>
                  ys \<noteq> [] \<and> \<not> fst (last ys) \<and> snd (snd (last ys)) = get_stats e'"
        by simp_all
      show ?thesis
      proof (cases x)
        case (Inl err)
        with Some gen run a show ?thesis by simp
      next
        case (Inr r)
        obtain ys e' s' where r: "r = (ys, e', s')" by (cases r)
        with Inr Some gen run a b show ?thesis by simp
      qed
    qed
  qed
qed

lemma line3_drive:
  "\<exists>e' s'. drive_steps
       \<lparr>start_node = Some ''a'', end_node = Some ''c'', visited_count = 0, path_length = 0,
        is_running = False, is_complete = False, path_found = False,
        priority_queue = [(0, ''a'')], visited_nodes = {}\<rparr>
       (line3(''a'' := (line3 ''a'')\<lparr>distance := 0\<rparr>)) = Some (Inr (e', s')) \<and>
     path_found e' \<and> path_length e' = 2 \<and> visited_count e' = 3 \<and> state (s' ''b'') = PATH"
  by (simp add: drive_steps.simps walk_previous.simps reconstruct_path_def interior_def
        step_def line3_def blank_store_def Node_init_def
        heappop_def heappush_def siftdown_def siftdown_loop.simps relax_def Let_def
        is_start_def is_end_def set_state_def one_enat_def numeral_eq_enat insert_commute
        zero_enat_def)

theorem step_run_equivalence_witness:
  "\<exists>e0 s0 e' s'. DijkstraAlgorithm_init (Some ''a'') (Some ''c'') line3 = Inr (e0, s0) \<and>
     drive_steps e0 s0 = Some (Inr (e', s')) \<and>
     run_complete e0 s0 = Some (Inr (path_found e', e', s')) \<and>
     path_found e' \<and> path_length e' = 2 \<and> visited_count e' = 3"
proof -
  let ?e0 = "\<lparr>start_node = Some ''a'', end_node = Some ''c'', visited_count = 0, path_length = 0,
        is_running = False, is_complete = False, path_found = False,
        priority_queue = [(0, ''a'')], visited_nodes = {}\<rparr>"
  let ?s0 = "line3(''a'' := (line3 ''a'')\<lparr>distance := 0\<rparr>)"
  have init: "DijkstraAlgorithm_init (Some ''a'') (Some ''c'') line3 = Inr (?e0, ?s0)"
    by (simp add: DijkstraAlgorithm_init_def)
  from line3_drive obtain e' s' where d: "drive_steps ?e0 ?s0 = Some (Inr (e', s'))"
    and p: "path_found e'" "path_length e' = 2" "visited_count e' = 3" by blast
  from step_run_equivalence[of "Some ''a''" "Some ''c''" line3 ?e0 ?s0] init d
  have "run_complete ?e0 ?s0 = Some (Inr (path_found e', e', s'))" by simp
  with init d p show ?thesis by blast
qed

subsection \<open>The heap keeps its entries\<close>

lemma mset_swap_update:
  assumes "i < length xs" "j < length xs" "i \<noteq> j"
  shows "mset (xs[i := xs ! j, j := x]) = mset (xs[i := x])"
  using assms by (simp add: mset_update nth_list_update)

lemma siftdown_loop_length [simp]:
  "length (siftdown_loop s heap startpos pos newitem) = length heap"
  by (induction s heap startpos pos newitem rule: siftdown_loop.induct)
     (subst siftdown_loop.simps, simp add: Let_def)

lemma siftdown_loop_mset:
  "pos < length heap \<Longrightarrow>
     mset (siftdown_loop s heap startpos pos newitem) = mset (heap[pos := newitem])"
proof (induction s heap startpos pos newitem rule: siftdown_loop.induct)
  case (1 s heap startpos pos newitem)
  show ?case
  proof (cases "pos > startpos \<and> entry_lt s newitem (heap ! ((pos - 1) div 2))")
    case True
    then have lt: "(pos - 1) div 2 < pos" by auto
    with 1 True have "mset (siftdown_loop s (heap[pos := heap ! ((pos - 1) div 2)]) startpos
                              ((pos - 1) div 2) newitem)
                      = mset (heap[pos := heap ! ((pos - 1) div 2), (pos - 1) div 2 := newitem])"
      by simp
    also have "\<dots> = mset (heap[pos := newitem])"
      using lt 1(2) by (intro mset_swap_update) auto
    finally show ?thesis using True
      by (subst siftdown_loop.simps) (simp add: Let_def)
  next
    case False
    then show ?thesis by (subst siftdown_loop.simps) (auto simp: Let_def)
  qed
qed

lemma heappush_mset: "mset (heappush s heap item) = add_mset item (mset heap)"
  by (simp add: heappush_def siftdown_def Let_def siftdown_loop_mset)

lemma siftup_loop_unfold:
  "siftup_loop s heap endpos pos =
     (if 2 * pos + 1 < endpos
      then siftup_loop s (heap[pos := heap ! smaller_child s heap endpos pos]) endpos
             (smaller_child s heap endpos pos)
      else (heap, pos))"
  by (cases "2 * pos + 1 < endpos"; subst siftup_loop.simps)
     (simp_all add: Let_def smaller_child_def)

lemma smaller_child_bounds:
  "2 * pos + 1 < endpos \<Longrightarrow>
     smaller_child s heap endpos pos < endpos \<and> pos < smaller_child s heap endpos pos \<and>
     (smaller_child s heap endpos pos = 2 * pos + 1 \<or> smaller_child s heap endpos pos = 2 * pos + 2)"
  by (auto simp: smaller_child_def)

lemma siftup_loop_hole:
  "pos < length heap \<Longrightarrow> endpos = length heap \<Longrightarrow>
     siftup_loop s heap endpos pos = (heap', pos') \<Longrightarrow>
     length heap' = length heap \<and> pos' < length heap \<and>
     mset (heap'[pos' := x]) = mset (heap[pos := x])"
proof (induction "endpos - pos" arbitrary: heap pos rule: less_induct)
  case less
  show ?case
  proof (cases "2 * pos + 1 < endpos")
    case False
    with less.prems(3) have "heap' = heap" "pos' = pos"
      by (simp_all add: siftup_loop_unfold[of s heap endpos pos])
    with less.prems(1) show ?thesis by simp
  next
    case True
    let ?c = "smaller_child s heap endpos pos"
    from smaller_child_bounds[OF True, of s heap]
    have c: "?c < endpos" "pos < ?c" by simp_all
    have rec: "siftup_loop s (heap[pos := heap ! ?c]) endpos ?c = (heap', pos')"
      using less.prems(3) True by (simp add: siftup_loop_unfold[of s heap endpos pos])
    have "length heap' = length (heap[pos := heap ! ?c]) \<and> pos' < length (heap[pos := heap ! ?c]) \<and>
          mset (heap'[pos' := x]) = mset (heap[pos := heap ! ?c, ?c := x])"
      using c less.prems(1,2) rec
      by (intro less.hyps) simp_all
    moreover have "mset (heap[pos := heap ! ?c, ?c := x]) = mset (heap[pos := x])"
      using c less.prems(1,2) by (intro mset_swap_update) auto
    ultimately show ?thesis by simp
  qed
qed

lemma siftup_mset:
  "pos < length heap \<Longrightarrow> mset (siftup s heap pos) = mset heap"
proof -
  assume p: "pos < length heap"
  obtain heap' pos' where l: "siftup_loop s heap (length heap) pos = (heap', pos')"
    by (cases "siftup_loop s heap (length heap) pos")
  from siftup_loop_hole[OF p refl l, of "heap ! pos"]
  have "length heap' = length heap" "pos' < length heap"
    "mset (heap'[pos' := heap ! pos]) = mset heap" by simp_all
  then show ?thesis
    by (simp add: siftup_def Let_def l siftdown_def siftdown_loop_mset)
qed

lemma heappop_mset:
  assumes "heappop s heap = Inr (x, heap')"
  shows "mset heap = add_mset x (mset heap')"
proof (cases "heap = []")
  case True
  with assms show ?thesis by (simp add: heappop_def)
next
  case False
  then obtain ys y where h: "heap = ys @ [y]" by (cases heap rule: rev_cases) auto
  show ?thesis
  proof (cases "ys = []")
    case True
    with assms h show ?thesis by (simp add: heappop_def)
  next
    case ne: False
    then have len: "0 < length ys" by simp
    from assms h ne have x: "x = ys ! 0" and h': "heap' = siftup s (ys[0 := y]) 0"
      by (simp_all add: heappop_def Let_def)
    have "mset heap' = mset (ys[0 := y])" using len by (simp add: h' siftup_mset)
    also have "\<dots> = add_mset y (mset ys - {#ys ! 0#})" using len by (simp add: mset_update)
    finally show ?thesis using h x len by simp
  qed
qed

lemma heappop_facts:
  assumes "heappop s heap = Inr (x, heap')"
  shows "x \<in> set heap" "set heap' \<subseteq> set heap" "length heap = Suc (length heap')"
    "set heap = insert x (set heap')"
proof -
  note m = heappop_mset[OF assms]
  from m have "set_mset (mset heap) = set_mset (add_mset x (mset heap'))" by simp
  then show s: "set heap = insert x (set heap')" by simp
  then show "x \<in> set heap" "set heap' \<subseteq> set heap" by auto
  from m have "size (mset heap) = size (add_mset x (mset heap'))" by simp
  then show "length heap = Suc (length heap')" by simp
qed

lemma heappush_facts:
  "set (heappush s heap x) = insert x (set heap)" "length (heappush s heap x) = Suc (length heap)"
proof -
  note m = heappush_mset[of s heap x]
  from m have "set_mset (mset (heappush s heap x)) = set_mset (add_mset x (mset heap))" by simp
  then show "set (heappush s heap x) = insert x (set heap)" by simp
  from m have "size (mset (heappush s heap x)) = size (add_mset x (mset heap))" by simp
  then show "length (heappush s heap x) = Suc (length heap)" by simp
qed

subsection \<open>Termination of a run\<close>

lemma is_chain_previous_cong:
  "(\<And>m. previous (s' m) = previous (s m)) \<Longrightarrow> is_chain s' c xs = is_chain s c xs"
  by (induction xs arbitrary: c; case_tac c) auto

lemma chain_exists:
  assumes "\<forall>n \<in> V. \<forall>p. previous (s n) = Some p \<longrightarrow> p \<in> V \<and> distance (s p) < distance (s n)"
    and "n \<in> V"
  shows "\<exists>chain. is_chain s (Some n) chain"
  using assms(2)
proof (induction "distance (s n)" arbitrary: n rule: less_induct)
  case less
  show ?case
  proof (cases "previous (s n)")
    case None
    then have "is_chain s (Some n) [n]" by simp
    then show ?thesis ..
  next
    case (Some p)
    with assms(1) less.prems have "p \<in> V" "distance (s p) < distance (s n)" by auto
    from less.hyps[OF this(2) this(1)] obtain chain where "is_chain s (Some p) chain" ..
    with Some have "is_chain s (Some n) (n # chain)" by simp
    then show ?thesis ..
  qed
qed

lemma enat_less_succ: "(d :: enat) + 1 < x \<Longrightarrow> d < d + 1"
  by (cases d) (auto simp: one_enat_def)

lemma relax_run_inv:
  assumes r: "relax e c nb (q, s) = (q', s')"
    and c: "c \<in> visited_nodes e" and nb: "nb \<in> V"
    and q: "snd ` set q \<subseteq> V"
    and p: "\<forall>n \<in> V. \<forall>p. previous (s n) = Some p \<longrightarrow>
              p \<in> visited_nodes e \<and> distance (s p) < distance (s n)"
  shows "snd ` set q' \<subseteq> V \<and>
         (\<forall>n \<in> V. \<forall>p. previous (s' n) = Some p \<longrightarrow>
              p \<in> visited_nodes e \<and> distance (s' p) < distance (s' n))"
proof (cases "nb \<notin> visited_nodes e \<and> distance (s c) + 1 < distance (s nb)")
  case False
  with r have "q' = q" "s' = s" by (auto simp: relax_def Let_def split: if_splits)
  with q p show ?thesis by simp
next
  case True
  let ?d = "distance (s c) + 1"
  let ?s = "s(nb := (s nb)\<lparr>distance := ?d, previous := Some c\<rparr>)"
  from True r have s': "s' = ?s" and q': "q' = heappush ?s q (?d, nb)"
    by (auto simp: relax_def Let_def)
  from True c have ne: "c \<noteq> nb" by auto
  from True have lt: "distance (s c) < ?d" by (intro enat_less_succ) auto
  have "snd ` set q' \<subseteq> V" using q nb by (simp add: q' heappush_facts)
  moreover have "\<forall>n \<in> V. \<forall>p. previous (s' n) = Some p \<longrightarrow>
              p \<in> visited_nodes e \<and> distance (s' p) < distance (s' n)"
  proof (intro ballI allI impI)
    fix n p assume n: "n \<in> V" and pr: "previous (s' n) = Some p"
    show "p \<in> visited_nodes e \<and> distance (s' p) < distance (s' n)"
    proof (cases "n = nb")
      case True
      with pr s' have "p = c" by simp
      with True c ne lt show ?thesis by (simp add: s')
    next
      case False
      with pr s' have "previous (s n) = Some p" by simp
      with p n have "p \<in> visited_nodes e" "distance (s p) < distance (s n)" by auto
      moreover from this(1) True have "p \<noteq> nb" by auto
      ultimately show ?thesis using False by (simp add: s')
    qed
  qed
  ultimately show ?thesis by simp
qed

lemma fold_relax_run_inv:
  assumes "fold (relax e c) nbs (q, s) = (q', s')"
    and "c \<in> visited_nodes e" and "set nbs \<subseteq> V"
    and "snd ` set q \<subseteq> V"
    and "\<forall>n \<in> V. \<forall>p. previous (s n) = Some p \<longrightarrow>
              p \<in> visited_nodes e \<and> distance (s p) < distance (s n)"
  shows "snd ` set q' \<subseteq> V \<and>
         (\<forall>n \<in> V. \<forall>p. previous (s' n) = Some p \<longrightarrow>
              p \<in> visited_nodes e \<and> distance (s' p) < distance (s' n))"
  using assms
proof (induction nbs arbitrary: q s)
  case Nil
  then show ?case by simp
next
  case (Cons nb nbs)
  obtain q1 s1 where r: "relax e c nb (q, s) = (q1, s1)" by (cases "relax e c nb (q, s)")
  with Cons.prems(1) have f: "fold (relax e c) nbs (q1, s1) = (q', s')" by simp
  from Cons.prems(3) have nb: "nb \<in> V" and nbs: "set nbs \<subseteq> V" by simp_all
  from relax_run_inv[OF r Cons.prems(2) nb Cons.prems(4) Cons.prems(5)]
  have "snd ` set q1 \<subseteq> V"
    "\<forall>n \<in> V. \<forall>p. previous (s1 n) = Some p \<longrightarrow>
              p \<in> visited_nodes e \<and> distance (s1 p) < distance (s1 n)"
    by simp_all
  from Cons.IH[OF f Cons.prems(2) nbs this] show ?case .
qed

lemma run_inv_frame:
  assumes "run_inv V e s"
    and "\<And>m. previous (s' m) = previous (s m) \<and> distance (s' m) = distance (s m) \<and>
             neighbors (s' m) = neighbors (s m)"
    and "visited_nodes e' = visited_nodes e" "snd ` set (priority_queue e') \<subseteq> V"
      "visited_count e' = visited_count e"
  shows "run_inv V e' s'"
  using assms unfolding run_inv_def by simp

lemma run_inv_mark:
  assumes inv: "run_inv V e s" and n: "n \<in> V" "n \<notin> visited_nodes e"
    and q: "snd ` set q \<subseteq> V"
  shows "run_inv V (mark_visited e q n) (tag_visited s n)"
proof -
  from inv have fin: "finite (visited_nodes e)"
    unfolding run_inv_def using finite_subset by blast
  with n(2) have "int (card (insert n (visited_nodes e))) = int (card (visited_nodes e)) + 1"
    by simp
  with inv n q show ?thesis
    unfolding run_inv_def by (simp add: mark_visited_def tag_visited_fields)
qed

lemma run_measure_pop:
  assumes "visited_nodes e' = visited_nodes e" "length (priority_queue e') < length (priority_queue e)"
  shows "((e', s'), (e, s)) \<in> run_measure V"
  using assms by (simp add: run_measure_def)

lemma run_measure_visit:
  assumes "finite V" "n \<in> V" "n \<notin> visited_nodes e" "visited_nodes e' = insert n (visited_nodes e)"
  shows "((e', s'), (e, s)) \<in> run_measure V"
proof -
  have "V - insert n (visited_nodes e) = (V - visited_nodes e) - {n}" by auto
  moreover have "card ((V - visited_nodes e) - {n}) < card (V - visited_nodes e)"
    using assms(1-3) by (intro card_Diff1_less) auto
  ultimately show ?thesis using assms(4) by (simp add: run_measure_def)
qed


lemma run_inv_step:
  assumes inv: "run_inv V e s" and nc: "\<not> is_complete e"
  shows "\<exists>r e' s'. step e s = Some (Inr (r, e', s')) \<and> run_inv V e' s' \<and>
           (if fst r then \<not> is_complete e' \<and> ((e', s'), (e, s)) \<in> run_measure V
            else is_complete e')"
proof (cases "priority_queue e = []")
  case True
  then have "step e s = Some (Inr ((False, None), e\<lparr>is_complete := True, is_running := False\<rparr>, s))"
    by (intro step_finished) simp
  moreover have "run_inv V (e\<lparr>is_complete := True, is_running := False\<rparr>) s"
    using inv by (simp add: run_inv_def)
  ultimately show ?thesis by simp
next
  case ne: False
  then obtain d n q where pop: "heappop s (priority_queue e) = Inr ((d, n), q)"
    using heappop_nonempty[of "priority_queue e" s] by auto
  note hf = heappop_facts[OF pop]
  from inv hf(1) have nV: "n \<in> V" unfolding run_inv_def by force
  from inv hf(2) have qV: "snd ` set q \<subseteq> V" unfolding run_inv_def by blast
  from inv have fin: "finite V" by (simp add: run_inv_def)
  show ?thesis
  proof (cases "distance (s n) < d \<or> n \<in> visited_nodes e")
    case True
    from step_stale[OF ne nc pop True]
    have st: "step e s = Some (Inr ((True, None), e\<lparr>priority_queue := q\<rparr>, s))" .
    have "run_inv V (e\<lparr>priority_queue := q\<rparr>) s"
      using inv qV by (intro run_inv_frame[OF inv]) simp_all
    moreover have "((e\<lparr>priority_queue := q\<rparr>, s), (e, s)) \<in> run_measure V"
      using hf(3) by (intro run_measure_pop) simp_all
    ultimately show ?thesis using st nc by simp
  next
    case False
    then have fr: "\<not> distance (s n) < d" "n \<notin> visited_nodes e" by simp_all
    let ?e2 = "mark_visited e q n" and ?s2 = "tag_visited s n"
    note inv2 = run_inv_mark[OF inv nV fr(2) qV]
    show ?thesis
    proof (cases "end_node e = Some n")
      case True
      let ?E = "?e2\<lparr>path_found := True, is_complete := True, is_running := False\<rparr>"
      have "\<forall>m \<in> V. \<forall>p. previous (?s2 m) = Some p \<longrightarrow>
               p \<in> V \<and> distance (?s2 p) < distance (?s2 m)"
        using inv2 unfolding run_inv_def by blast
      from chain_exists[OF this nV] obtain chain where "is_chain ?s2 (Some n) chain" ..
      with True have ch: "is_chain ?s2 (end_node ?E) chain" by (simp add: mark_visited_def)
      let ?e3 = "?E\<lparr>path_length := int (length chain) - 1\<rparr>"
      let ?s3 = "fold (\<lambda>node s'. set_state s' node PATH) (interior chain) ?s2"
      have rp: "reconstruct_path ?E ?s2 = Some (?e3, ?s3)"
        using ch by (subst reconstruct_path_eq) auto
      with step_found[OF ne nc pop fr True]
      have st: "step e s = Some (Inr ((False, Some n), ?e3, ?s3))" by simp
      have "run_inv V ?e3 ?s3"
        using inv2 by (intro run_inv_frame[OF inv2])
          (simp_all add: fold_set_state_apply mark_visited_def run_inv_def)
      with st show ?thesis by simp
    next
      case nend: False
      obtain q' s3 where fo: "fold (relax ?e2 n) (neighbors (?s2 n)) (q, ?s2) = (q', s3)"
        by (cases "fold (relax ?e2 n) (neighbors (?s2 n)) (q, ?s2)")
      from step_expand[OF ne nc pop fr nend fo]
      have st: "step e s = Some (Inr ((True, Some n), ?e2\<lparr>priority_queue := q'\<rparr>, s3))" .
      have nbs: "set (neighbors (?s2 n)) \<subseteq> V"
        using inv2 nV unfolding run_inv_def by blast
      have "n \<in> visited_nodes ?e2" by (simp add: mark_visited_def)
      from fold_relax_run_inv[OF fo this nbs]
      have a: "snd ` set q' \<subseteq> V"
        and b: "\<forall>m \<in> V. \<forall>p. previous (s3 m) = Some p \<longrightarrow>
                  p \<in> visited_nodes ?e2 \<and> distance (s3 p) < distance (s3 m)"
        using inv2 qV unfolding run_inv_def by simp_all
      have c: "neighbors (s3 m) = neighbors (?s2 m)" for m
        using fold_relax_frame[OF fo, of m] by simp
      have "run_inv V (?e2\<lparr>priority_queue := q'\<rparr>) s3"
        using inv2 a b c unfolding run_inv_def by simp
      moreover have "((?e2\<lparr>priority_queue := q'\<rparr>, s3), (e, s)) \<in> run_measure V"
        using fin nV fr(2) by (intro run_measure_visit) (simp_all add: mark_visited_def)
      moreover have "\<not> is_complete (?e2\<lparr>priority_queue := q'\<rparr>)"
        using nc by (simp add: mark_visited_def)
      ultimately show ?thesis using st by simp
    qed
  qed
qed


lemma init_run_inv:
  assumes "finite V" and "\<forall>n \<in> V. set (neighbors (s n)) \<subseteq> V" and "start \<in> V"
    and "\<forall>n \<in> V. previous (s n) = None"
    and "DijkstraAlgorithm_init (Some start) end s = Inr (e0, s0)"
  shows "run_inv V e0 s0" "run_inv V (e0\<lparr>is_running := True\<rparr>) s0" "\<not> is_complete e0"
proof -
  from assms(5) have e0: "e0 = \<lparr>start_node = Some start, end_node = end, visited_count = 0,
      path_length = 0, is_running = False, is_complete = False, path_found = False,
      priority_queue = [(0, start)], visited_nodes = {}\<rparr>"
    and s0: "s0 = s(start := (s start)\<lparr>distance := 0\<rparr>)"
    by (simp_all add: DijkstraAlgorithm_init_def)
  have n: "neighbors (s0 m) = neighbors (s m)" and p: "previous (s0 m) = previous (s m)" for m
    by (simp_all add: s0)
  show "run_inv V e0 s0" "run_inv V (e0\<lparr>is_running := True\<rparr>) s0" "\<not> is_complete e0"
    using assms(1-4) unfolding run_inv_def n p by (simp_all add: e0)
qed




subsection \<open>The heap is ordered by recorded distance\<close>




lemma parent_eq_iff: "0 < i \<Longrightarrow> ((i - 1) div 2 = p) = (i = 2 * p + 1 \<or> i = 2 * p + 2)" for i :: nat
  by presburger










subsection \<open>The search on a grid without barriers\<close>




lemma adjacent_sym: "adjacent a b = adjacent b a"
  by (auto simp: adjacent_def)






lemma relax_queue_only: "relax (e\<lparr>priority_queue := q\<rparr>) = relax e"
  by (rule relax_visited_only) simp












subsection \<open>Complete runs on the example lines\<close>

lemma line3_first_run:
  "run_dijkstra_complete (Some ''a'') (Some ''c'') line3 =
     Some (Inr ((True, \<lparr>stats_visited_count = 3, stats_path_length = 2, stats_is_running = False,
                        stats_is_complete = True, stats_path_found = True\<rparr>), line3_used))"
proof -
  have "\<exists>s'. run_dijkstra_complete (Some ''a'') (Some ''c'') line3 =
     Some (Inr ((True, \<lparr>stats_visited_count = 3, stats_path_length = 2, stats_is_running = False,
                        stats_is_complete = True, stats_path_found = True\<rparr>), s')) \<and>
     (\<forall>x. s' x = line3_used x)"
    by (simp add: run_dijkstra_complete_def DijkstraAlgorithm_init_def run_complete_def
        run_complete_loop.simps walk_previous.simps reconstruct_path_def interior_def
        step_def line3_used_def line3_def blank_store_def Node_init_def get_stats_def
        heappop_def heappush_def siftdown_def siftdown_loop.simps relax_def Let_def
        is_start_def is_end_def set_state_def one_enat_def numeral_eq_enat insert_commute
        zero_enat_def)
  then obtain s' where r: "run_dijkstra_complete (Some ''a'') (Some ''c'') line3 =
     Some (Inr ((True, \<lparr>stats_visited_count = 3, stats_path_length = 2, stats_is_running = False,
                        stats_is_complete = True, stats_path_found = True\<rparr>), s'))"
    and "\<forall>x. s' x = line3_used x" by blast
  then have "s' = line3_used" by (intro ext) simp
  with r show ?thesis by simp
qed

lemma line4_first_run:
  "run_dijkstra_complete (Some ''a'') (Some ''d'') line4 =
     Some (Inr ((True, \<lparr>stats_visited_count = 4, stats_path_length = 3, stats_is_running = False,
                        stats_is_complete = True, stats_path_found = True\<rparr>), line4_used))"
proof -
  have "\<exists>s'. run_dijkstra_complete (Some ''a'') (Some ''d'') line4 =
     Some (Inr ((True, \<lparr>stats_visited_count = 4, stats_path_length = 3, stats_is_running = False,
                        stats_is_complete = True, stats_path_found = True\<rparr>), s')) \<and>
     (\<forall>x. s' x = line4_used x)"
    by (simp add: run_dijkstra_complete_def DijkstraAlgorithm_init_def run_complete_def
        run_complete_loop.simps walk_previous.simps reconstruct_path_def interior_def
        step_def line4_used_def line4_def blank_store_def Node_init_def get_stats_def
        heappop_def heappush_def siftdown_def siftdown_loop.simps relax_def Let_def
        is_start_def is_end_def set_state_def one_enat_def numeral_eq_enat insert_commute
        zero_enat_def)
  then obtain s' where r: "run_dijkstra_complete (Some ''a'') (Some ''d'') line4 =
     Some (Inr ((True, \<lparr>stats_visited_count = 4, stats_path_length = 3, stats_is_running = False,
                        stats_is_complete = True, stats_path_found = True\<rparr>), s'))"
    and "\<forall>x. s' x = line4_used x" by blast
  then have "s' = line4_used" by (intro ext) simp
  with r show ?thesis by simp
qed
subsection \<open>What a run on reset nodes maintains about the start node\<close>

lemma interior_set:
  assumes "distinct xs" "xs \<noteq> []"
  shows "set (interior xs) = set xs - {hd xs, last xs}"
proof (cases xs)
  case Nil
  with assms show ?thesis by simp
next
  case (Cons x ys)
  show ?thesis
  proof (cases ys rule: rev_cases)
    case Nil
    with Cons show ?thesis by (simp add: interior_def)
  next
    case (snoc zs z)
    with Cons assms(1) show ?thesis by (auto simp: interior_def)
  qed
qed

lemma no_chain_on_cycle:
  assumes "previous (s a) = Some b" "previous (s b) = Some a"
  shows "\<not> is_chain s (Some a) chain"
proof
  assume ch: "is_chain s (Some a) chain"
  then obtain xs where 1: "chain = a # xs" "is_chain s (Some b) xs"
    using assms(1) by (cases chain) auto
  then obtain ys where 2: "xs = b # ys" "is_chain s (Some a) ys"
    using assms(2) by (cases xs) auto
  from is_chain_unique[OF ch 2(2)] 1 2 show False by simp
qed

lemma reconstruct_path_None:
  "reconstruct_path e s = None \<longleftrightarrow> path_found e \<and> (\<forall>chain. \<not> is_chain s (end_node e) chain)"
proof (cases "reconstruct_path e s")
  case None
  have "\<not> (e', s') = (e'', s'')" if "reconstruct_path e s = Some (e', s')" for e' s' e'' s''
    using that None by simp
  from None reconstruct_path_eq[of e s] show ?thesis
    by (cases "path_found e") (auto simp: reconstruct_path_def split: option.splits
          simp: walk_previous_iff[symmetric])
next
  case (Some r)
  obtain e' s' where "r = (e', s')" by (cases r)
  with Some reconstruct_path_eq[of e s e' s'] show ?thesis by (auto split: if_splits)
qed

lemma relax_start_inv:
  assumes r: "relax e c nb (q, s) = (q', s')"
    and st: "distance (s st) = 0" "previous (s st) = None"
    and A: "\<forall>n \<in> X \<union> snd ` set q. n \<noteq> st \<longrightarrow> previous (s n) \<noteq> None"
  shows "distance (s' st) = 0 \<and> previous (s' st) = None \<and>
         (\<forall>n \<in> X \<union> snd ` set q'. n \<noteq> st \<longrightarrow> previous (s' n) \<noteq> None)"
proof (cases "nb \<notin> visited_nodes e \<and> distance (s c) + 1 < distance (s nb)")
  case False
  with r have "q' = q" "s' = s" by (auto simp: relax_def Let_def split: if_splits)
  with st A show ?thesis by simp
next
  case True
  let ?d = "distance (s c) + 1"
  let ?s = "s(nb := (s nb)\<lparr>distance := ?d, previous := Some c\<rparr>)"
  from True r have s': "s' = ?s" and q': "q' = heappush ?s q (?d, nb)"
    by (auto simp: relax_def Let_def)
  from True st(1) have ne: "nb \<noteq> st" by auto
  have q'': "snd ` set q' = insert nb (snd ` set q)" by (simp add: q' heappush_facts)
  have "\<forall>n \<in> X \<union> snd ` set q'. n \<noteq> st \<longrightarrow> previous (s' n) \<noteq> None"
  proof (intro ballI impI)
    fix n assume n: "n \<in> X \<union> snd ` set q'" and nst: "n \<noteq> st"
    show "previous (s' n) \<noteq> None"
    proof (cases "n = nb")
      case True
      then show ?thesis by (simp add: s')
    next
      case False
      with n q'' have "n \<in> X \<union> snd ` set q" by auto
      with A nst False show ?thesis by (simp add: s')
    qed
  qed
  with ne st show ?thesis by (simp add: s')
qed

lemma fold_relax_start_inv:
  assumes "fold (relax e c) nbs (q, s) = (q', s')"
    and "distance (s st) = 0" "previous (s st) = None"
    and "\<forall>n \<in> X \<union> snd ` set q. n \<noteq> st \<longrightarrow> previous (s n) \<noteq> None"
  shows "distance (s' st) = 0 \<and> previous (s' st) = None \<and>
         (\<forall>n \<in> X \<union> snd ` set q'. n \<noteq> st \<longrightarrow> previous (s' n) \<noteq> None)"
  using assms
proof (induction nbs arbitrary: q s)
  case Nil
  then show ?case by simp
next
  case (Cons nb nbs)
  obtain q1 s1 where r: "relax e c nb (q, s) = (q1, s1)" by (cases "relax e c nb (q, s)")
  with Cons.prems(1) have f: "fold (relax e c) nbs (q1, s1) = (q', s')" by simp
  from relax_start_inv[OF r Cons.prems(2,3,4)]
  have "distance (s1 st) = 0" "previous (s1 st) = None"
    "\<forall>n \<in> X \<union> snd ` set q1. n \<noteq> st \<longrightarrow> previous (s1 n) \<noteq> None"
    by simp_all
  from Cons.IH[OF f this] show ?case .
qed

lemma step_start_inv:
  assumes si: "start_inv st e s" and step: "step e s = Some (Inr (r, e', s'))"
  shows "start_inv st e' s'"
  using step
proof (cases rule: step_cases)
  case finished
  with si show ?thesis by (simp add: start_inv_def)
next
  case (stale d n q)
  from heappop_facts(2)[OF stale(3)] si stale(6,7) show ?thesis
    unfolding start_inv_def by auto
next
  case (seen d n q)
  from heappop_facts(2)[OF seen(3)] si seen(7,8) show ?thesis
    unfolding start_inv_def by auto
next
  case (found d n q)
  note f = reconstruct_path_fields[OF found(7)]
  from heappop_facts(1,2)[OF found(3)]
  have n: "n \<in> snd ` set (priority_queue e)" and q: "snd ` set q \<subseteq> snd ` set (priority_queue e)"
    by force+
  have vis: "visited_nodes e' = insert n (visited_nodes e)" and qu: "priority_queue e' = q"
    and sn: "start_node e' = start_node e"
    using f(4,6,7) by (simp_all add: mark_visited_def)
  have fl: "distance (s' m) = distance (s m)" "previous (s' m) = previous (s m)" for m
    using f(9,10)[of m] by (simp_all add: tag_visited_fields)
  from si n q show ?thesis
    unfolding start_inv_def vis qu sn fl by auto
next
  case (expand d n q q')
  from heappop_facts(1,2)[OF expand(3)]
  have n: "n \<in> snd ` set (priority_queue e)" and q: "snd ` set q \<subseteq> snd ` set (priority_queue e)"
    by force+
  let ?s2 = "tag_visited s n"
  from si have a: "distance (?s2 st) = 0" "previous (?s2 st) = None"
    by (simp_all add: start_inv_def tag_visited_fields)
  from si n q
  have b: "\<forall>m \<in> insert n (visited_nodes e) \<union> snd ` set q. m \<noteq> st \<longrightarrow> previous (?s2 m) \<noteq> None"
    unfolding start_inv_def by (auto simp: tag_visited_fields)
  from fold_relax_start_inv[OF expand(7) a b]
  have "distance (s' st) = 0" "previous (s' st) = None"
    "\<forall>m \<in> insert n (visited_nodes e) \<union> snd ` set q'. m \<noteq> st \<longrightarrow> previous (s' m) \<noteq> None"
    by simp_all
  with si show ?thesis
    unfolding start_inv_def by (simp add: expand(8) mark_visited_def)
qed

lemma step_run_inv:
  assumes inv: "run_inv V e s" and step: "step e s = Some (Inr (r, e', s'))"
  shows "run_inv V e' s'"
proof (cases "is_complete e")
  case True
  then have "step e s = Some (Inr ((False, None), e\<lparr>is_complete := True, is_running := False\<rparr>, s))"
    by (intro step_finished) simp
  with step have "e' = e\<lparr>is_complete := True, is_running := False\<rparr>" "s' = s" by simp_all
  with inv show ?thesis by (simp add: run_inv_def)
next
  case False
  from run_inv_step[OF inv False] step show ?thesis by auto
qed

lemma steps_inv:
  "run_inv V e s \<Longrightarrow> start_inv st e s \<Longrightarrow> steps k e s = Some (Inr (e', s')) \<Longrightarrow>
     run_inv V e' s' \<and> start_inv st e' s'"
proof (induction k arbitrary: e s)
  case 0
  then show ?case by simp
next
  case (Suc k)
  from Suc.prems(3) obtain r e1 s1 where st: "step e s = Some (Inr (r, e1, s1))"
    and k: "steps k e1 s1 = Some (Inr (e', s'))"
    by (auto split: option.splits sum.splits)
  from Suc.IH[OF step_run_inv[OF Suc.prems(1) st] step_start_inv[OF Suc.prems(2) st] k]
  show ?case .
qed

lemma in_run_inv:
  assumes "in_run V st e s"
  shows "run_inv V e s" "start_inv st e s"
proof -
  from assms obtain s_init en e0 s0 b k
    where g: "reset_graph V s_init" and m: "st \<in> V"
      and init: "DijkstraAlgorithm_init (Some st) en s_init = Inr (e0, s0)"
      and k: "steps k (e0\<lparr>is_running := b\<rparr>) s0 = Some (Inr (e, s))"
    unfolding in_run_def by blast
  from g have fin: "finite V" and cl: "\<forall>n \<in> V. set (neighbors (s_init n)) \<subseteq> V"
    and pr: "\<forall>n \<in> V. previous (s_init n) = None"
    by (simp_all add: reset_graph_def)
  from init_run_inv(1)[OF fin cl m pr init]
  have r0: "run_inv V (e0\<lparr>is_running := b\<rparr>) s0" by (simp add: run_inv_def)
  from init pr m have s0: "start_inv st (e0\<lparr>is_running := b\<rparr>) s0"
    by (auto simp: DijkstraAlgorithm_init_def start_inv_def)
  from steps_inv[OF r0 s0 k] show "run_inv V e s" "start_inv st e s" by simp_all
qed

lemma run_inv_chain:
  assumes "run_inv V e s" and "n \<in> V"
  shows "\<exists>chain. is_chain s (Some n) chain"
proof -
  from assms(1) have "\<forall>m \<in> V. \<forall>p. previous (s m) = Some p \<longrightarrow>
      p \<in> V \<and> distance (s p) < distance (s m)"
    unfolding run_inv_def by blast
  from chain_exists[OF this assms(2)] show ?thesis .
qed

lemma chain_last_start:
  assumes links: "\<forall>m \<in> W. \<forall>p. previous (s m) = Some p \<longrightarrow> p \<in> W"
    and si: "\<forall>m \<in> W. m \<noteq> st \<longrightarrow> previous (s m) \<noteq> None"
  shows "is_chain s (Some n) chain \<Longrightarrow> n \<in> W \<Longrightarrow> chain \<noteq> [] \<and> last chain = st"
proof (induction chain arbitrary: n)
  case Nil
  then show ?case by simp
next
  case (Cons x xs)
  then have x: "x = n" and ch: "is_chain s (previous (s n)) xs" by simp_all
  show ?case
  proof (cases "previous (s n)")
    case None
    with ch have "xs = []" by simp
    moreover from None si Cons.prems(2) have "n = st" by auto
    ultimately show ?thesis using x by simp
  next
    case (Some p)
    with links Cons.prems(2) have "p \<in> W" by auto
    from Cons.IH[OF _ this] ch Some have "xs \<noteq> [] \<and> last xs = st" by simp
    then show ?thesis by simp
  qed
qed
subsection \<open>Reaching the end node\<close>

lemma is_chain_tag_visited:
  "is_chain (tag_visited s n) c chain = is_chain s c chain"
  by (rule is_chain_previous_cong) (simp add: tag_visited_fields)

lemma step_found_chain:
  assumes "priority_queue e \<noteq> []" "\<not> is_complete e"
    and "heappop s (priority_queue e) = Inr ((d, n), q)"
    and "\<not> distance (s n) < d" "n \<notin> visited_nodes e" "end_node e = Some n"
    and ch: "is_chain s (Some n) chain"
  shows "step e s =
           Some (Inr ((False, Some n),
                      (mark_visited e q n)\<lparr>path_found := True, is_complete := True,
                                             is_running := False,
                                             path_length := int (length chain) - 1\<rparr>,
                      fold (\<lambda>node s'. set_state s' node PATH) (interior chain) (tag_visited s n)))"
proof -
  let ?e = "(mark_visited e q n)\<lparr>path_found := True, is_complete := True, is_running := False\<rparr>"
  from ch assms(6) have "is_chain (tag_visited s n) (end_node ?e) chain"
    by (simp add: is_chain_tag_visited mark_visited_def)
  then have "reconstruct_path ?e (tag_visited s n) =
               Some (?e\<lparr>path_length := int (length chain) - 1\<rparr>,
                     fold (\<lambda>node s'. set_state s' node PATH) (interior chain) (tag_visited s n))"
    by (subst reconstruct_path_eq) auto
  with step_found[OF assms(1-6)] show ?thesis by simp
qed

lemma step_found_iff:
  assumes "priority_queue e \<noteq> []" "\<not> is_complete e"
    and "heappop s (priority_queue e) = Inr ((d, n), q)"
    and "\<not> distance (s n) < d" "n \<notin> visited_nodes e" "end_node e = Some n"
  shows "(step e s \<noteq> None) = (\<exists>chain. is_chain s (Some n) chain)"
proof
  assume "\<exists>chain. is_chain s (Some n) chain"
  then obtain chain where "is_chain s (Some n) chain" ..
  from step_found_chain[OF assms this] show "step e s \<noteq> None" by simp
next
  let ?e = "(mark_visited e q n)\<lparr>path_found := True, is_complete := True, is_running := False\<rparr>"
  assume "step e s \<noteq> None"
  with step_found[OF assms] have "reconstruct_path ?e (tag_visited s n) \<noteq> None"
    by (auto split: option.splits)
  then have "\<exists>chain. is_chain (tag_visited s n) (end_node ?e) chain"
    by (simp add: reconstruct_path_None)
  with assms(6) show "\<exists>chain. is_chain s (Some n) chain"
    by (simp add: is_chain_tag_visited mark_visited_def)
qed

lemma in_run_queue:
  assumes "in_run V st e s" and "heappop s (priority_queue e) = Inr ((d, n), q)"
  shows "n \<in> V" "snd ` set q \<subseteq> V"
proof -
  note hf = heappop_facts[OF assms(2)]
  from in_run_inv(1)[OF assms(1)] have "snd ` set (priority_queue e) \<subseteq> V"
    by (simp add: run_inv_def)
  with hf(1,2) show "n \<in> V" "snd ` set q \<subseteq> V" by force+
qed

text \<open>
  Claim C6.  When \<open>step\<close> pops the end node in an entry that is not stale, the node not
  yet visited, the step is the path reconstruction on the engine with \<open>path_found\<close> and
  \<open>is_complete\<close> set and \<open>is_running\<close> cleared, and it returns exactly when the
  predecessor links from the end node form a finite chain: then it returns
  \<open>(False, end node)\<close> with these flags and the length of the chain minus one as
  \<open>path_length\<close>.  In every state that calls of \<open>step\<close> reach from an engine constructed
  on nodes whose predecessor links were reset, the chain is finite and the step returns
  so.  No other branch of \<open>step\<close> returns \<open>False\<close> together with a node.
\<close>

theorem step_reaches_end:
  "(priority_queue e \<noteq> [] \<and> \<not> is_complete e \<and>
    heappop s (priority_queue e) = Inr ((d, n), q) \<and>
    \<not> distance (s n) < d \<and> n \<notin> visited_nodes e \<and> end_node e = Some n \<longrightarrow>
      step e s =
        (case reconstruct_path
                ((mark_visited e q n)\<lparr>path_found := True, is_complete := True,
                                       is_running := False\<rparr>) (tag_visited s n) of
           None \<Rightarrow> None
         | Some (e3, s3) \<Rightarrow> Some (Inr ((False, Some n), e3, s3))) \<and>
      (step e s \<noteq> None) = (\<exists>chain. is_chain s (Some n) chain) \<and>
      (\<forall>chain. is_chain s (Some n) chain \<longrightarrow>
         (\<exists>e3 s3. step e s = Some (Inr ((False, Some n), e3, s3)) \<and>
                   path_found e3 \<and> is_complete e3 \<and> \<not> is_running e3 \<and>
                   path_length e3 = int (length chain) - 1)) \<and>
      (in_run V st e s \<longrightarrow>
         (\<exists>e3 s3. step e s = Some (Inr ((False, Some n), e3, s3)) \<and>
                   path_found e3 \<and> is_complete e3 \<and> \<not> is_running e3))) \<and>
   (step e s = Some (Inr ((False, Some m), e', s')) \<longrightarrow>
      end_node e = Some m \<and> m \<notin> visited_nodes e \<and> priority_queue e \<noteq> [] \<and>
      \<not> is_complete e \<and>
      (\<exists>d' q'. heappop s (priority_queue e) = Inr ((d', m), q') \<and> \<not> distance (s m) < d') \<and>
      path_found e' \<and> is_complete e' \<and> \<not> is_running e')"
proof (intro conjI impI allI)
  assume a: "priority_queue e \<noteq> [] \<and> \<not> is_complete e \<and>
    heappop s (priority_queue e) = Inr ((d, n), q) \<and>
    \<not> distance (s n) < d \<and> n \<notin> visited_nodes e \<and> end_node e = Some n"
  then have h: "priority_queue e \<noteq> []" "\<not> is_complete e"
    "heappop s (priority_queue e) = Inr ((d, n), q)"
    "\<not> distance (s n) < d" "n \<notin> visited_nodes e" "end_node e = Some n"
    by blast+
  let ?e = "(mark_visited e q n)\<lparr>path_found := True, is_complete := True, is_running := False\<rparr>"
  show "step e s =
        (case reconstruct_path ?e (tag_visited s n) of
           None \<Rightarrow> None
         | Some (e3, s3) \<Rightarrow> Some (Inr ((False, Some n), e3, s3)))"
    by (rule step_found[OF h])
  show "(step e s \<noteq> None) = (\<exists>chain. is_chain s (Some n) chain)"
    by (rule step_found_iff[OF h])
  {
    fix chain
    assume "is_chain s (Some n) chain"
    from step_found_chain[OF h this]
    show "\<exists>e3 s3. step e s = Some (Inr ((False, Some n), e3, s3)) \<and>
                   path_found e3 \<and> is_complete e3 \<and> \<not> is_running e3 \<and>
                   path_length e3 = int (length chain) - 1"
      by simp
  }
  {
    assume r: "in_run V st e s"
    from run_inv_chain[OF in_run_inv(1)[OF r] in_run_queue(1)[OF r h(3)]]
    obtain chain where "is_chain s (Some n) chain" ..
    from step_found_chain[OF h this]
    show "\<exists>e3 s3. step e s = Some (Inr ((False, Some n), e3, s3)) \<and>
                   path_found e3 \<and> is_complete e3 \<and> \<not> is_running e3"
      by simp
  }
next
  assume st: "step e s = Some (Inr ((False, Some m), e', s'))"
  then have "end_node e = Some m \<and> m \<notin> visited_nodes e \<and> priority_queue e \<noteq> [] \<and>
      \<not> is_complete e \<and>
      (\<exists>d' q'. heappop s (priority_queue e) = Inr ((d', m), q') \<and> \<not> distance (s m) < d') \<and>
      path_found e' \<and> is_complete e' \<and> \<not> is_running e'"
  proof (cases rule: step_cases)
    case (found d n q)
    from reconstruct_path_fields(1-3)[OF found(7)] found show ?thesis by simp
  qed simp_all
  then show "end_node e = Some m" "m \<notin> visited_nodes e" "priority_queue e \<noteq> []"
    "\<not> is_complete e"
    "\<exists>d' q'. heappop s (priority_queue e) = Inr ((d', m), q') \<and> \<not> distance (s m) < d'"
    "path_found e'" "is_complete e'" "\<not> is_running e'"
    by simp_all
qed

lemma found_chain_to_start:
  assumes r: "in_run V st e s" and step: "step e s = Some (Inr ((False, Some n), e', s'))"
  shows "\<exists>chain. is_chain s (Some n) chain \<and> chain \<noteq> [] \<and> hd chain = n \<and> last chain = st \<and>
           distinct chain \<and> start_node e = Some st \<and> end_node e = Some n \<and>
           path_found e' \<and> path_length e' = int (length chain) - 1 \<and>
           (\<forall>m. s' m = (if m \<in> set chain \<and> m \<noteq> st \<and> m \<noteq> n
                         then (s m)\<lparr>state := PATH\<rparr> else tag_visited s n m))"
  using step
proof (cases rule: step_cases)
  case (found d n' q)
  then have n': "n' = n" by simp
  note f = found[unfolded n']
  note inv = in_run_inv[OF r]
  let ?E = "(mark_visited e q n)\<lparr>path_found := True, is_complete := True, is_running := False\<rparr>"
  from f(7) obtain chain where ch: "is_chain (tag_visited s n) (end_node ?E) chain"
    and e': "e' = ?E\<lparr>path_length := int (length chain) - 1\<rparr>"
    and s': "s' = fold (\<lambda>node s'. set_state s' node PATH) (interior chain) (tag_visited s n)"
    by (subst (asm) reconstruct_path_eq) auto
  from ch f(6) have ch: "is_chain s (Some n) chain"
    by (simp add: is_chain_tag_visited mark_visited_def)
  from heappop_facts(1)[OF f(3)] have nq: "n \<in> snd ` set (priority_queue e)" by force
  let ?W = "insert n (visited_nodes e)"
  from inv(1) nq have nV: "n \<in> V" "visited_nodes e \<subseteq> V" by (auto simp: run_inv_def)
  have links: "\<forall>m \<in> ?W. \<forall>p. previous (s m) = Some p \<longrightarrow> p \<in> ?W"
    using inv(1) nV unfolding run_inv_def by blast
  have si: "\<forall>m \<in> ?W. m \<noteq> st \<longrightarrow> previous (s m) \<noteq> None"
    using inv(2) nq unfolding start_inv_def by blast
  from chain_last_start[OF links si ch] have ne: "chain \<noteq> []" and la: "last chain = st" by simp_all
  from is_chain_hd[OF ch ne] have hd: "hd chain = n" by simp
  have d: "distinct chain" using ch by (rule is_chain_distinct)
  have "\<forall>m. s' m = (if m \<in> set chain \<and> m \<noteq> st \<and> m \<noteq> n
                         then (s m)\<lparr>state := PATH\<rparr> else tag_visited s n m)"
  proof
    fix m
    have "s' m = (if m \<in> set (interior chain) then (tag_visited s n m)\<lparr>state := PATH\<rparr>
                  else tag_visited s n m)"
      by (simp add: s' fold_set_state_apply)
    moreover have "m \<in> set (interior chain) \<longleftrightarrow> m \<in> set chain \<and> m \<noteq> st \<and> m \<noteq> n"
      using interior_set[OF d ne] hd la by auto
    moreover have "m \<noteq> n \<Longrightarrow> tag_visited s n m = s m"
      by (simp add: tag_visited_def set_state_def)
    ultimately show "s' m = (if m \<in> set chain \<and> m \<noteq> st \<and> m \<noteq> n
                         then (s m)\<lparr>state := PATH\<rparr> else tag_visited s n m)"
      by simp
  qed
  moreover from inv(2) have "start_node e = Some st" by (simp add: start_inv_def)
  moreover have "path_found e'" "path_length e' = int (length chain) - 1"
    by (simp_all add: e')
  ultimately show ?thesis using ch ne hd la d f(6) by blast
qed simp_all

text \<open>
  Claim C8.  Path reconstruction does nothing unless \<open>path_found\<close> is set.  When it is
  set, reconstruction returns exactly when the predecessor links from the end node form a
  finite chain; then \<open>path_length\<close> is the number of nodes of the chain minus one, the
  nodes of the chain other than its first (the end node) and its last (the node without
  predecessor, where the walk stops) get the state \<open>PATH\<close>, and nothing else changes.
  When the last node of the chain is the start node of the engine, these are exactly the
  nodes of the chain other than the start node and the end node.  That is the case
  whenever \<open>step\<close> runs the reconstruction in a state reached from an engine constructed
  on nodes whose predecessor links were reset: the chain then leads from the end node to
  the start node.
\<close>

theorem reconstruct_path_chain:
  "(\<not> path_found e \<longrightarrow> reconstruct_path e s = Some (e, s)) \<and>
   (path_found e \<longrightarrow>
      (reconstruct_path e s \<noteq> None) = (\<exists>chain. is_chain s (end_node e) chain)) \<and>
   (path_found e \<longrightarrow> is_chain s (end_node e) chain \<longrightarrow>
      (\<exists>s'. reconstruct_path e s = Some (e\<lparr>path_length := int (length chain) - 1\<rparr>, s') \<and>
            (\<forall>n. s' n = (if n \<in> set (interior chain) then (s n)\<lparr>state := PATH\<rparr> else s n)) \<and>
            distinct chain \<and>
            (chain \<noteq> [] \<longrightarrow>
               end_node e = Some (hd chain) \<and> previous (s (last chain)) = None \<and>
               s' (hd chain) = s (hd chain) \<and> s' (last chain) = s (last chain)) \<and>
            (chain \<noteq> [] \<longrightarrow> start_node e = Some (last chain) \<longrightarrow>
               (\<forall>n. s' n = (if n \<in> set chain \<and> Some n \<noteq> start_node e \<and> Some n \<noteq> end_node e
                             then (s n)\<lparr>state := PATH\<rparr> else s n))))) \<and>
   (in_run V st e0 s0 \<longrightarrow> step e0 s0 = Some (Inr ((False, Some m), e1, s1)) \<longrightarrow>
      (\<exists>chain. is_chain s0 (Some m) chain \<and> chain \<noteq> [] \<and> hd chain = m \<and> last chain = st \<and>
           distinct chain \<and> start_node e0 = Some st \<and> end_node e0 = Some m \<and>
           path_found e1 \<and> path_length e1 = int (length chain) - 1 \<and>
           (\<forall>n. s1 n = (if n \<in> set chain \<and> n \<noteq> st \<and> n \<noteq> m
                         then (s0 n)\<lparr>state := PATH\<rparr> else tag_visited s0 m n))))"
proof (intro conjI impI)
  assume "\<not> path_found e"
  then show "reconstruct_path e s = Some (e, s)" by (simp add: reconstruct_path_def)
next
  assume "path_found e"
  then show "(reconstruct_path e s \<noteq> None) = (\<exists>chain. is_chain s (end_node e) chain)"
    by (simp add: reconstruct_path_None)
next
  assume pf: "path_found e" and ch: "is_chain s (end_node e) chain"
  let ?s' = "fold (\<lambda>node s'. set_state s' node PATH) (interior chain) s"
  have r: "reconstruct_path e s = Some (e\<lparr>path_length := int (length chain) - 1\<rparr>, ?s')"
    using pf ch by (subst reconstruct_path_eq) auto
  have d: "distinct chain" using ch by (rule is_chain_distinct)
  have a: "\<forall>n. ?s' n = (if n \<in> set (interior chain) then (s n)\<lparr>state := PATH\<rparr> else s n)"
    by (simp add: fold_set_state_apply)
  have b: "chain \<noteq> [] \<longrightarrow>
               end_node e = Some (hd chain) \<and> previous (s (last chain)) = None \<and>
               ?s' (hd chain) = s (hd chain) \<and> ?s' (last chain) = s (last chain)"
    using is_chain_hd[OF ch] is_chain_last[OF ch] hd_notin_interior[OF d] last_notin_interior[OF d]
    by (simp add: fold_set_state_apply)
  have c: "chain \<noteq> [] \<longrightarrow> start_node e = Some (last chain) \<longrightarrow>
               (\<forall>n. ?s' n = (if n \<in> set chain \<and> Some n \<noteq> start_node e \<and> Some n \<noteq> end_node e
                             then (s n)\<lparr>state := PATH\<rparr> else s n))"
  proof (intro impI allI)
    fix n
    assume ne: "chain \<noteq> []" and st: "start_node e = Some (last chain)"
    from is_chain_hd[OF ch ne] have en: "end_node e = Some (hd chain)" .
    have "n \<in> set (interior chain) \<longleftrightarrow>
            n \<in> set chain \<and> Some n \<noteq> start_node e \<and> Some n \<noteq> end_node e"
      using interior_set[OF d ne] st en by auto
    then show "?s' n = (if n \<in> set chain \<and> Some n \<noteq> start_node e \<and> Some n \<noteq> end_node e
                             then (s n)\<lparr>state := PATH\<rparr> else s n)"
      by (simp add: fold_set_state_apply)
  qed
  from r a d b c
  show "\<exists>s'. reconstruct_path e s = Some (e\<lparr>path_length := int (length chain) - 1\<rparr>, s') \<and>
            (\<forall>n. s' n = (if n \<in> set (interior chain) then (s n)\<lparr>state := PATH\<rparr> else s n)) \<and>
            distinct chain \<and>
            (chain \<noteq> [] \<longrightarrow>
               end_node e = Some (hd chain) \<and> previous (s (last chain)) = None \<and>
               s' (hd chain) = s (hd chain) \<and> s' (last chain) = s (last chain)) \<and>
            (chain \<noteq> [] \<longrightarrow> start_node e = Some (last chain) \<longrightarrow>
               (\<forall>n. s' n = (if n \<in> set chain \<and> Some n \<noteq> start_node e \<and> Some n \<noteq> end_node e
                             then (s n)\<lparr>state := PATH\<rparr> else s n)))"
    by blast
next
  assume "in_run V st e0 s0" and "step e0 s0 = Some (Inr ((False, Some m), e1, s1))"
  then show "\<exists>chain. is_chain s0 (Some m) chain \<and> chain \<noteq> [] \<and> hd chain = m \<and> last chain = st \<and>
           distinct chain \<and> start_node e0 = Some st \<and> end_node e0 = Some m \<and>
           path_found e1 \<and> path_length e1 = int (length chain) - 1 \<and>
           (\<forall>n. s1 n = (if n \<in> set chain \<and> n \<noteq> st \<and> n \<noteq> m
                         then (s0 n)\<lparr>state := PATH\<rparr> else tag_visited s0 m n))"
    by (rule found_chain_to_start)
qed
lemma line3_reset_graph: "reset_graph {''a'', ''b'', ''c''} line3"
  by (simp add: reset_graph_def line3_def blank_store_def Node_init_def)

lemma line3_reach_end:
  "\<exists>e s. in_run {''a'', ''b'', ''c''} ''a'' e s \<and>
     priority_queue e = [(2, ''c'')] \<and> \<not> is_complete e \<and> visited_nodes e = {''a'', ''b''} \<and>
     end_node e = Some ''c'' \<and> distance (s ''c'') = 2 \<and> state (s ''b'') = VISITED \<and>
     is_chain s (Some ''c'') [''c'', ''b'', ''a'']"
proof -
  let ?e0 = "\<lparr>start_node = Some ''a'', end_node = Some ''c'', visited_count = 0, path_length = 0,
        is_running = False, is_complete = False, path_found = False,
        priority_queue = [(0, ''a'')], visited_nodes = {}\<rparr>"
  let ?s0 = "line3(''a'' := (line3 ''a'')\<lparr>distance := 0\<rparr>)"
  have init: "DijkstraAlgorithm_init (Some ''a'') (Some ''c'') line3 = Inr (?e0, ?s0)"
    by (simp add: DijkstraAlgorithm_init_def)
  have "\<exists>e s. steps (Suc (Suc 0)) (?e0\<lparr>is_running := True\<rparr>) ?s0 = Some (Inr (e, s)) \<and>
     priority_queue e = [(2, ''c'')] \<and> \<not> is_complete e \<and> visited_nodes e = {''a'', ''b''} \<and>
     end_node e = Some ''c'' \<and> distance (s ''c'') = 2 \<and> state (s ''b'') = VISITED \<and>
     is_chain s (Some ''c'') [''c'', ''b'', ''a'']"
    by (simp add: step_def line3_def blank_store_def Node_init_def
        heappop_def heappush_def siftdown_def siftdown_loop.simps relax_def Let_def
        is_start_def is_end_def set_state_def one_enat_def numeral_eq_enat insert_commute
        zero_enat_def)
  then obtain e s where k: "steps (Suc (Suc 0)) (?e0\<lparr>is_running := True\<rparr>) ?s0 = Some (Inr (e, s))"
    and p: "priority_queue e = [(2, ''c'')]" "\<not> is_complete e" "visited_nodes e = {''a'', ''b''}"
      "end_node e = Some ''c''" "distance (s ''c'') = 2" "state (s ''b'') = VISITED"
      "is_chain s (Some ''c'') [''c'', ''b'', ''a'']"
    by (elim exE conjE) (rule that)
  have "''a'' \<in> {''a'', ''b'', ''c''}" by simp
  with line3_reset_graph init k have "in_run {''a'', ''b'', ''c''} ''a'' e s"
    unfolding in_run_def by blast
  with p show ?thesis by (intro exI[of _ e] exI[of _ s] conjI)
qed

theorem step_reaches_end_witness:
  "\<exists>e s. in_run {''a'', ''b'', ''c''} ''a'' e s \<and>
     priority_queue e \<noteq> [] \<and> \<not> is_complete e \<and>
     heappop s (priority_queue e) = Inr ((2, ''c''), []) \<and>
     \<not> distance (s ''c'') < 2 \<and> ''c'' \<notin> visited_nodes e \<and> end_node e = Some ''c'' \<and>
     is_chain s (Some ''c'') [''c'', ''b'', ''a''] \<and>
     (\<exists>e3 s3. step e s = Some (Inr ((False, Some ''c''), e3, s3)) \<and>
               path_found e3 \<and> is_complete e3 \<and> \<not> is_running e3 \<and> path_length e3 = 2)"
proof -
  from line3_reach_end obtain e :: "string DijkstraAlgorithm" and s
    where r: "in_run {''a'', ''b'', ''c''} ''a'' e s"
      and p: "priority_queue e = [(2, ''c'')]" "\<not> is_complete e" "visited_nodes e = {''a'', ''b''}"
        "end_node e = Some ''c''" "distance (s ''c'') = 2"
      and ch: "is_chain s (Some ''c'') [''c'', ''b'', ''a'']"
    by (elim exE conjE) (rule that)
  have a: "priority_queue e \<noteq> []" "heappop s (priority_queue e) = Inr ((2, ''c''), [])"
      "\<not> distance (s ''c'') < 2" "''c'' \<notin> visited_nodes e"
    using p by (simp_all add: heappop_def)
  from step_reaches_end[of e s 2 "''c''" "[]" "{''a'', ''b'', ''c''}" "''a''"] a p(2,4)
  have "\<forall>chain. is_chain s (Some ''c'') chain \<longrightarrow>
         (\<exists>e3 s3. step e s = Some (Inr ((False, Some ''c''), e3, s3)) \<and>
                   path_found e3 \<and> is_complete e3 \<and> \<not> is_running e3 \<and>
                   path_length e3 = int (length chain) - 1)"
    by blast
  with ch have "\<exists>e3 s3. step e s = Some (Inr ((False, Some ''c''), e3, s3)) \<and>
                   path_found e3 \<and> is_complete e3 \<and> \<not> is_running e3 \<and>
                   path_length e3 = int (length [''c'', ''b'', ''a'']) - 1"
    by blast
  then have "\<exists>e3 s3. step e s = Some (Inr ((False, Some ''c''), e3, s3)) \<and>
                   path_found e3 \<and> is_complete e3 \<and> \<not> is_running e3 \<and> path_length e3 = 2"
    by simp
  with r a p(2,4) ch
  have "in_run {''a'', ''b'', ''c''} ''a'' e s \<and>
     priority_queue e \<noteq> [] \<and> \<not> is_complete e \<and>
     heappop s (priority_queue e) = Inr ((2, ''c''), []) \<and>
     \<not> distance (s ''c'') < 2 \<and> ''c'' \<notin> visited_nodes e \<and> end_node e = Some ''c'' \<and>
     is_chain s (Some ''c'') [''c'', ''b'', ''a''] \<and>
     (\<exists>e3 s3. step e s = Some (Inr ((False, Some ''c''), e3, s3)) \<and>
               path_found e3 \<and> is_complete e3 \<and> \<not> is_running e3 \<and> path_length e3 = 2)"
    by (intro conjI)
  then show ?thesis by (intro exI)
qed

theorem reconstruct_path_chain_witness:
  "\<exists>e s e' s'. in_run {''a'', ''b'', ''c''} ''a'' e s \<and>
     step e s = Some (Inr ((False, Some ''c''), e', s')) \<and>
     is_chain s (Some ''c'') [''c'', ''b'', ''a''] \<and>
     start_node e = Some ''a'' \<and> end_node e = Some ''c'' \<and> path_found e' \<and>
     path_length e' = 2 \<and> state (s ''b'') = VISITED \<and> state (s' ''b'') = PATH \<and>
     s' ''a'' = s ''a''"
proof -
  from line3_reach_end obtain e :: "string DijkstraAlgorithm" and s
    where r: "in_run {''a'', ''b'', ''c''} ''a'' e s"
      and p: "priority_queue e = [(2, ''c'')]" "\<not> is_complete e" "visited_nodes e = {''a'', ''b''}"
        "end_node e = Some ''c''" "distance (s ''c'') = 2" "state (s ''b'') = VISITED"
      and ch: "is_chain s (Some ''c'') [''c'', ''b'', ''a'']"
    by (elim exE conjE) (rule that)
  have a: "priority_queue e \<noteq> []" "heappop s (priority_queue e) = Inr ((2, ''c''), [])"
      "\<not> distance (s ''c'') < 2" "''c'' \<notin> visited_nodes e"
    using p by (simp_all add: heappop_def)
  from step_found_chain[OF a(1) p(2) a(2,3,4) p(4) ch]
  obtain e' s' where st: "step e s = Some (Inr ((False, Some ''c''), e', s'))" by blast
  note t = reconstruct_path_chain[of _ _ _ "{''a'', ''b'', ''c''}" "''a''" e s "''c''" e' s',
      THEN conjunct2, THEN conjunct2, THEN conjunct2, rule_format, OF r st]
  from t obtain chain where c: "is_chain s (Some ''c'') chain" "start_node e = Some ''a''"
      "end_node e = Some ''c''" "path_found e'" "path_length e' = int (length chain) - 1"
      "\<forall>n. s' n = (if n \<in> set chain \<and> n \<noteq> ''a'' \<and> n \<noteq> ''c''
                     then (s n)\<lparr>state := PATH\<rparr> else tag_visited s ''c'' n)"
    by (elim exE conjE) (rule that)
  from is_chain_unique[OF c(1) ch] have eq: "chain = [''c'', ''b'', ''a'']" .
  from c(5) eq have l: "path_length e' = 2" by simp
  from c(6) eq have b: "state (s' ''b'') = PATH" by simp
  from c(6) eq have "s' ''a'' = tag_visited s ''c'' ''a''" by simp
  then have a': "s' ''a'' = s ''a''" by (simp add: tag_visited_def set_state_def)
  from r st ch c(2,3,4) l p(6) b a'
  have "in_run {''a'', ''b'', ''c''} ''a'' e s \<and>
     step e s = Some (Inr ((False, Some ''c''), e', s')) \<and>
     is_chain s (Some ''c'') [''c'', ''b'', ''a''] \<and>
     start_node e = Some ''a'' \<and> end_node e = Some ''c'' \<and> path_found e' \<and>
     path_length e' = 2 \<and> state (s ''b'') = VISITED \<and> state (s' ''b'') = PATH \<and>
     s' ''a'' = s ''a''"
    by (intro conjI)
  then show ?thesis by (intro exI)
qed

subsection \<open>A second run on nodes that were not reset\<close>

lemma line3_second_init:
  "DijkstraAlgorithm_init (Some ''b'') (Some ''c'') line3_used =
     Inr (\<lparr>start_node = Some ''b'', end_node = Some ''c'', visited_count = 0, path_length = 0,
           is_running = False, is_complete = False, path_found = False,
           priority_queue = [(0, ''b'')], visited_nodes = {}\<rparr>,
          line3_used(''b'' := (line3_used ''b'')\<lparr>distance := 0\<rparr>))"
  by (simp add: DijkstraAlgorithm_init_def)

lemma line3_second_step:
  "step \<lparr>start_node = Some ''b'', end_node = Some ''c'', visited_count = 0, path_length = 0,
         is_running = False, is_complete = False, path_found = False,
         priority_queue = [(0, ''b'')], visited_nodes = {}\<rparr>
        (line3_used(''b'' := (line3_used ''b'')\<lparr>distance := 0\<rparr>)) =
     Some (Inr ((True, Some ''b''), engine_second, line3_second))"
proof -
  let ?e = "\<lparr>start_node = Some ''b'', end_node = Some ''c'', visited_count = 0, path_length = 0,
         is_running = False, is_complete = False, path_found = False,
         priority_queue = [(0, ''b'')], visited_nodes = {}\<rparr>"
  let ?s = "line3_used(''b'' := (line3_used ''b'')\<lparr>distance := 0\<rparr>)"
  have "\<exists>s'. step ?e ?s = Some (Inr ((True, Some ''b''), engine_second, s')) \<and>
          (\<forall>x. s' x = line3_second x)"
    by (simp add: step_def engine_second_def line3_second_def line3_used_def line3_def
        blank_store_def Node_init_def
        heappop_def heappush_def siftdown_def siftdown_loop.simps relax_def Let_def
        is_start_def is_end_def set_state_def one_enat_def numeral_eq_enat insert_commute
        zero_enat_def)
  then obtain s' where r: "step ?e ?s = Some (Inr ((True, Some ''b''), engine_second, s'))"
    and "\<forall>x. s' x = line3_second x" by blast
  then have "s' = line3_second" by (intro ext) simp
  with r show ?thesis by simp
qed

lemma line3_second_chain: "is_chain line3_second (Some ''c'') [''c'', ''b'', ''a'']"
  by (simp add: line3_second_def line3_used_def line3_def blank_store_def Node_init_def)

text \<open>
  On the line \<open>a - b - c\<close>, after a complete run from \<open>a\<close> to \<open>c\<close>, a second
  engine from \<open>b\<close> to \<open>c\<close> is constructed without a reset in between.  Its first
  step expands \<open>b\<close>, its second pops the end node \<open>c\<close> and runs the reconstruction.
  The link of \<open>b\<close> to \<open>a\<close> is left over from the first run, so the chain from the end
  node is \<open>c, b, a\<close>: the start node \<open>b\<close> is inside it and gets the state
  \<open>PATH\<close>, and \<open>path_length\<close> is 2 although \<open>c\<close> is next to \<open>b\<close>.
\<close>

theorem path_through_start_counterexample:
  "run_dijkstra_complete (Some ''a'') (Some ''c'') line3 =
     Some (Inr ((True, \<lparr>stats_visited_count = 3, stats_path_length = 2, stats_is_running = False,
                        stats_is_complete = True, stats_path_found = True\<rparr>), line3_used)) \<and>
   \<not> isl (DijkstraAlgorithm_init (Some ''b'') (Some ''c'') line3_used) \<and>
   step (fst (projr (DijkstraAlgorithm_init (Some ''b'') (Some ''c'') line3_used)))
        (snd (projr (DijkstraAlgorithm_init (Some ''b'') (Some ''c'') line3_used))) =
     Some (Inr ((True, Some ''b''), engine_second, line3_second)) \<and>
   start_node engine_second = Some ''b'' \<and> end_node engine_second = Some ''c'' \<and>
   state (line3_second ''b'') = VISITED \<and>
   is_chain line3_second (Some ''c'') [''c'', ''b'', ''a''] \<and>
   step engine_second line3_second =
     Some (Inr ((False, Some ''c''),
        the (reconstruct_path
               ((mark_visited engine_second [] ''c'')\<lparr>path_found := True, is_complete := True,
                                                       is_running := False\<rparr>)
               (tag_visited line3_second ''c'')))) \<and>
   reconstruct_path
       ((mark_visited engine_second [] ''c'')\<lparr>path_found := True, is_complete := True,
                                               is_running := False\<rparr>)
       (tag_visited line3_second ''c'') \<noteq> None \<and>
   start_node (fst (the (reconstruct_path
       ((mark_visited engine_second [] ''c'')\<lparr>path_found := True, is_complete := True,
                                               is_running := False\<rparr>)
       (tag_visited line3_second ''c'')))) = Some ''b'' \<and>
   path_length (fst (the (reconstruct_path
       ((mark_visited engine_second [] ''c'')\<lparr>path_found := True, is_complete := True,
                                               is_running := False\<rparr>)
       (tag_visited line3_second ''c'')))) = 2 \<and>
   state (tag_visited line3_second ''c'' ''b'') = VISITED \<and>
   state (snd (the (reconstruct_path
       ((mark_visited engine_second [] ''c'')\<lparr>path_found := True, is_complete := True,
                                               is_running := False\<rparr>)
       (tag_visited line3_second ''c''))) ''b'') = PATH"
proof -
  let ?E = "(mark_visited engine_second [] ''c'')\<lparr>path_found := True, is_complete := True,
                                                  is_running := False\<rparr>"
  let ?S = "tag_visited line3_second ''c''"
  let ?chain = "[''c'', ''b'', ''a'']"
  have ch: "is_chain ?S (end_node ?E) ?chain"
    using line3_second_chain
    by (simp only: is_chain_tag_visited) (simp add: mark_visited_def engine_second_def)
  have rp: "reconstruct_path ?E ?S =
              Some (?E\<lparr>path_length := int (length ?chain) - 1\<rparr>,
                    fold (\<lambda>node s'. set_state s' node PATH) (interior ?chain) ?S)"
    using ch by (subst reconstruct_path_eq) (auto simp: mark_visited_def)
  have a: "priority_queue engine_second \<noteq> []" "\<not> is_complete engine_second"
      "heappop line3_second (priority_queue engine_second) = Inr ((1, ''c''), [])"
      "\<not> distance (line3_second ''c'') < 1" "''c'' \<notin> visited_nodes engine_second"
      "end_node engine_second = Some ''c''" "start_node engine_second = Some ''b''"
    by (simp_all add: engine_second_def heappop_def line3_second_def)
  have st: "step engine_second line3_second = Some (Inr ((False, Some ''c''), the (reconstruct_path ?E ?S)))"
    using step_found[OF a(1-6)] rp by simp
  have v: "state (line3_second ''b'') = VISITED" "state (?S ''b'') = VISITED"
    by (simp_all add: line3_second_def tag_visited_def set_state_def)
  have r1: "reconstruct_path ?E ?S \<noteq> None"
    and r2: "start_node (fst (the (reconstruct_path ?E ?S))) = Some ''b''"
    and r3: "path_length (fst (the (reconstruct_path ?E ?S))) = 2"
    and r4: "state (snd (the (reconstruct_path ?E ?S)) ''b'') = PATH"
    unfolding rp by (simp_all add: mark_visited_def engine_second_def interior_def set_state_def)
  have i: "\<not> isl (DijkstraAlgorithm_init (Some ''b'') (Some ''c'') line3_used)"
    and s1: "step (fst (projr (DijkstraAlgorithm_init (Some ''b'') (Some ''c'') line3_used)))
        (snd (projr (DijkstraAlgorithm_init (Some ''b'') (Some ''c'') line3_used))) =
     Some (Inr ((True, Some ''b''), engine_second, line3_second))"
    using line3_second_step by (simp_all add: line3_second_init)
  from line3_first_run i s1 a(7,6) v(1) line3_second_chain st r1 r2 r3 v(2) r4
  show ?thesis by (intro conjI)
qed

lemma line4_second_init:
  "DijkstraAlgorithm_init (Some ''d'') (Some ''c'') line4_used =
     Inr (\<lparr>start_node = Some ''d'', end_node = Some ''c'', visited_count = 0, path_length = 0,
           is_running = False, is_complete = False, path_found = False,
           priority_queue = [(0, ''d'')], visited_nodes = {}\<rparr>,
          line4_used(''d'' := (line4_used ''d'')\<lparr>distance := 0\<rparr>))"
  by (simp add: DijkstraAlgorithm_init_def)

lemma line4_second_step:
  "step \<lparr>start_node = Some ''d'', end_node = Some ''c'', visited_count = 0, path_length = 0,
         is_running = b, is_complete = False, path_found = False,
         priority_queue = [(0, ''d'')], visited_nodes = {}\<rparr>
        (line4_used(''d'' := (line4_used ''d'')\<lparr>distance := 0\<rparr>)) =
     Some (Inr ((True, Some ''d''), engine_stale\<lparr>is_running := b\<rparr>, line4_stale))"
proof -
  let ?e = "\<lparr>start_node = Some ''d'', end_node = Some ''c'', visited_count = 0, path_length = 0,
         is_running = b, is_complete = False, path_found = False,
         priority_queue = [(0, ''d'')], visited_nodes = {}\<rparr>"
  let ?s = "line4_used(''d'' := (line4_used ''d'')\<lparr>distance := 0\<rparr>)"
  have "\<exists>s'. step ?e ?s = Some (Inr ((True, Some ''d''), engine_stale\<lparr>is_running := b\<rparr>, s')) \<and>
          (\<forall>x. s' x = line4_stale x)"
    by (simp add: step_def engine_stale_def line4_stale_def line4_used_def line4_def
        blank_store_def Node_init_def
        heappop_def heappush_def siftdown_def siftdown_loop.simps relax_def Let_def
        is_start_def is_end_def set_state_def one_enat_def numeral_eq_enat insert_commute
        zero_enat_def)
  then obtain s' where r: "step ?e ?s = Some (Inr ((True, Some ''d''), engine_stale\<lparr>is_running := b\<rparr>, s'))"
    and "\<forall>x. s' x = line4_stale x" by blast
  then have "s' = line4_stale" by (intro ext) simp
  with r show ?thesis by simp
qed

lemma line4_stale_facts:
  "priority_queue (engine_stale\<lparr>is_running := b\<rparr>) \<noteq> []"
  "\<not> is_complete (engine_stale\<lparr>is_running := b\<rparr>)"
  "heappop line4_stale (priority_queue (engine_stale\<lparr>is_running := b\<rparr>)) = Inr ((1, ''c''), [])"
  "\<not> distance (line4_stale ''c'') < 1"
  "''c'' \<notin> visited_nodes (engine_stale\<lparr>is_running := b\<rparr>)"
  "end_node (engine_stale\<lparr>is_running := b\<rparr>) = Some ''c''"
  "previous (line4_stale ''c'') = Some ''d''" "previous (line4_stale ''d'') = Some ''c''"
  by (simp_all add: engine_stale_def heappop_def line4_stale_def line4_used_def)

lemma line4_stale_step: "step (engine_stale\<lparr>is_running := b\<rparr>) line4_stale = None"
proof -
  have "\<not> (\<exists>chain. is_chain line4_stale (Some ''c'') chain)"
    using no_chain_on_cycle[OF line4_stale_facts(7,8)] by blast
  with step_found_iff[OF line4_stale_facts(1-6), of b] show ?thesis by simp
qed



text \<open>
  The same second run, at its second step: the queue holds the end node \<open>c\<close> in an
  entry that is not stale, the node is not visited, and \<open>step\<close> does not return.
\<close>

theorem step_on_stale_links_counterexample:
  "run_dijkstra_complete (Some ''a'') (Some ''d'') line4 =
     Some (Inr ((True, \<lparr>stats_visited_count = 4, stats_path_length = 3, stats_is_running = False,
                        stats_is_complete = True, stats_path_found = True\<rparr>), line4_used)) \<and>
   \<not> isl (DijkstraAlgorithm_init (Some ''d'') (Some ''c'') line4_used) \<and>
   step (fst (projr (DijkstraAlgorithm_init (Some ''d'') (Some ''c'') line4_used)))
        (snd (projr (DijkstraAlgorithm_init (Some ''d'') (Some ''c'') line4_used))) =
     Some (Inr ((True, Some ''d''), engine_stale, line4_stale)) \<and>
   priority_queue engine_stale \<noteq> [] \<and> \<not> is_complete engine_stale \<and>
   heappop line4_stale (priority_queue engine_stale) = Inr ((1, ''c''), []) \<and>
   \<not> distance (line4_stale ''c'') < 1 \<and> ''c'' \<notin> visited_nodes engine_stale \<and>
   end_node engine_stale = Some ''c'' \<and>
   previous (line4_stale ''c'') = Some ''d'' \<and> previous (line4_stale ''d'') = Some ''c'' \<and>
   step engine_stale line4_stale = None"
proof -
  have e: "engine_stale\<lparr>is_running := False\<rparr> = engine_stale" by (simp add: engine_stale_def)
  have i: "\<not> isl (DijkstraAlgorithm_init (Some ''d'') (Some ''c'') line4_used)"
    by (simp add: line4_second_init)
  have s1: "step (fst (projr (DijkstraAlgorithm_init (Some ''d'') (Some ''c'') line4_used)))
        (snd (projr (DijkstraAlgorithm_init (Some ''d'') (Some ''c'') line4_used))) =
     Some (Inr ((True, Some ''d''), engine_stale, line4_stale))"
    using line4_second_step[of False] by (simp add: line4_second_init e)
  note f = line4_stale_facts(1-3,5,6)[of False, unfolded e] line4_stale_facts(4,7,8)
  note s2 = line4_stale_step[of False, unfolded e]
  from line4_first_run i s1 f s2 show ?thesis by (intro conjI)
qed

end
